theory Spec2Isabelle
  imports Main "HOL-Library.Word"
begin

section \<open>The data model of bindings/cpp/buffer.cc\<close>

text \<open>
  The 32-bit quantities of the source (\<open>uint32_t\<close>) are words: their arithmetic wraps.
  Object sizes and counts (\<open>size_t\<close>) are natural numbers: they count objects in
  memory and cannot reach the end of their range. Where the source narrows a \<open>size_t\<close>
  to a \<open>uint32_t\<close> the model writes \<open>of_nat\<close>, which drops the high bits as the
  conversion does. An \<open>int\<close> is a word of 32 bits read as a signed number
  (\<open>sint\<close>); \<open>int id = strings_.size()\<close> narrows in the same way.
\<close>

type_synonym u32 = "32 word"

type_synonym int32 = "32 word"

text \<open>
  The bodies of \<open>OutputBuffer::AppendUint32\<close>, \<open>OutputBuffer::Append\<close> and
  \<open>OutputBuffer::Align\<close> live in the header, which is not part of the sources. The
  output buffer is therefore the sequence of calls made on it, oldest first.
\<close>

datatype out_call = AppendUint32 u32 | Append string | Align

type_synonym OutputBuffer = "out_call list"

text \<open>The number of payload bytes a call hands to the sink (\<open>Align\<close> pads only).\<close>

fun call_bytes :: "out_call \<Rightarrow> nat" where
  "call_bytes (AppendUint32 w) = 4"
| "call_bytes (Append bs) = length bs"
| "call_bytes Align = 0"

definition appended_bytes :: "OutputBuffer \<Rightarrow> nat" where
  "appended_bytes out = sum_list (map call_bytes out)"

text \<open>
  \<open>OutputBuffer::ChunkHeader\<close> and \<open>OutputBuffer::PartHeader\<close>: the fields
  \<open>id\<close>, \<open>type\<close>, \<open>start_time\<close>, \<open>end_time\<close> and \<open>type\<close>, \<open>offset\<close>,
  \<open>length\<close>, prefixed here because \<open>id\<close> and \<open>length\<close> are constants of HOL.
\<close>

record ChunkHeader =
  chunk_id :: u32
  chunk_type :: u32
  chunk_start_time :: u32
  chunk_end_time :: u32

record PartHeader =
  part_type :: u32
  part_offset :: u32
  part_length :: u32

text \<open>
  Modelled from the spec: the constant \<open>kAlignment\<close> is declared in the header, which is
  not part of the sources; the spec fixes the alignment boundary at 4 bytes.
\<close>

definition kAlignment :: u32 where
  "kAlignment = 4"

section \<open>OutputBuffer::StartChunk\<close>

text \<open>Lines 20 to 24: the aligned length of one part.\<close>

definition aligned_length_of :: "u32 \<Rightarrow> u32" where
  "aligned_length_of len =
     (let rem = len mod kAlignment
      in if rem \<noteq> 0 then len + (kAlignment - rem) else len)"

text \<open>
  The layout loop of lines 15 to 28. Its state is \<open>chunk_length\<close> and \<open>part_offset\<close>;
  it stores the offset into each part header and returns the updated array together with
  the final \<open>chunk_length\<close>.
\<close>

fun StartChunk_layout :: "PartHeader list \<Rightarrow> u32 \<Rightarrow> u32 \<Rightarrow> PartHeader list \<times> u32" where
  "StartChunk_layout [] chunk_length offs = ([], chunk_length)"
| "StartChunk_layout (part # parts) chunk_length offs =
     (let part' = part\<lparr>part_offset := offs\<rparr>;
          aligned_length = aligned_length_of (part_length part');
          (parts', chunk_length') =
             StartChunk_layout parts (chunk_length + aligned_length) (offs + aligned_length)
      in (part' # parts', chunk_length'))"

text \<open>The second loop, lines 39 to 44: three words per part.\<close>

fun StartChunk_emit_parts :: "PartHeader list \<Rightarrow> OutputBuffer \<Rightarrow> OutputBuffer" where
  "StartChunk_emit_parts [] out = out"
| "StartChunk_emit_parts (part # parts) out =
     StartChunk_emit_parts parts
       (out @ [AppendUint32 (part_type part), AppendUint32 (part_offset part),
               AppendUint32 (part_length part)])"

definition kChunkHeaderSize :: nat where
  "kChunkHeaderSize = 6 * 4"

definition kPartHeaderSize :: nat where
  "kPartHeaderSize = 3 * 4"

text \<open>
  \<open>StartChunk\<close> writes the part offsets in place and appends to the output; the model
  returns both. \<open>part_count\<close> is the length of the array.
\<close>

definition StartChunk ::
  "ChunkHeader \<Rightarrow> PartHeader list \<Rightarrow> OutputBuffer \<Rightarrow> PartHeader list \<times> OutputBuffer" where
  "StartChunk header parts out =
     (let part_count = length parts;
          (parts', chunk_length) =
             StartChunk_layout parts (of_nat (kChunkHeaderSize + part_count * kPartHeaderSize)) 0;
          out1 = out @ [AppendUint32 (chunk_id header), AppendUint32 (chunk_type header),
                        AppendUint32 chunk_length, AppendUint32 (chunk_start_time header),
                        AppendUint32 (chunk_end_time header), AppendUint32 (of_nat part_count)]
      in (parts', StartChunk_emit_parts parts' out1))"

section \<open>StringTable\<close>

text \<open>
  \<open>strings_\<close> is the vector of interned strings and \<open>strings_to_id_\<close> the map from a
  string to its id. A string is a sequence of bytes. The mutex is not modelled: every
  operation holds it from its first to its last statement.
\<close>

record StringTable =
  strings :: "string list"
  strings_to_id :: "string \<rightharpoonup> int32"

definition StringTable_new :: StringTable where
  "StringTable_new = \<lparr>strings = [], strings_to_id = Map.empty\<rparr>"

definition GetStringId :: "string \<Rightarrow> StringTable \<Rightarrow> int32 \<times> StringTable" where
  "GetStringId str t =
     (case strings_to_id t str of
        None \<Rightarrow>
          (let new_id = of_nat (length (strings t))
           in (new_id, t\<lparr>strings := strings t @ [str],
                         strings_to_id := (strings_to_id t)(str \<mapsto> new_id)\<rparr>))
      | Some known \<Rightarrow> (known, t))"

definition Clear :: "StringTable \<Rightarrow> StringTable" where
  "Clear t = t\<lparr>strings := [], strings_to_id := Map.empty\<rparr>"

text \<open>A sequence of \<open>GetStringId\<close> calls, with the ids returned, in call order.\<close>

fun GetStringIds :: "string list \<Rightarrow> StringTable \<Rightarrow> int32 list \<times> StringTable" where
  "GetStringIds [] t = ([], t)"
| "GetStringIds (s # ss) t =
     (let (i, t1) = GetStringId s t; (is, t2) = GetStringIds ss t1 in (i # is, t2))"

text \<open>The size loop of \<open>StringTable::PopulateHeader\<close>, lines 67 to 70.\<close>

fun raw_length_of :: "string list \<Rightarrow> nat \<Rightarrow> nat" where
  "raw_length_of [] raw_length = raw_length"
| "raw_length_of (s # ss) raw_length = raw_length_of ss (raw_length + (length s + 1))"

definition StringTable_PopulateHeader :: "StringTable \<Rightarrow> PartHeader \<Rightarrow> PartHeader" where
  "StringTable_PopulateHeader t header =
     header\<lparr>part_type := 0x30000, part_offset := 0,
            part_length := of_nat (raw_length_of (strings t) 0)\<rparr>"

text \<open>
  The loop of \<open>StringTable::WriteTo\<close>, lines 84 to 95. The result is \<open>False\<close> when the
  loop leaves the function by \<open>return false\<close>, and \<open>True\<close> when it ends, by
  \<open>break\<close> or by exhausting the vector. \<open>s.c_str()\<close> with \<open>s.size() + 1\<close> bytes is
  the string followed by its terminating zero byte.
\<close>

fun StringTable_WriteTo_loop ::
  "nat \<Rightarrow> string list \<Rightarrow> nat \<Rightarrow> OutputBuffer \<Rightarrow> bool \<times> OutputBuffer" where
  "StringTable_WriteTo_loop expected_raw_length [] raw_length out = (True, out)"
| "StringTable_WriteTo_loop expected_raw_length (s # ss) raw_length out =
     (let raw_length' = raw_length + (length s + 1)
      in if raw_length' \<le> expected_raw_length then
           (let out' = out @ [Append (s @ [CHR 0x00])]
            in if raw_length' = expected_raw_length then (True, out')
               else StringTable_WriteTo_loop expected_raw_length ss raw_length' out')
         else (False, out))"

definition StringTable_WriteTo ::
  "PartHeader \<Rightarrow> StringTable \<Rightarrow> OutputBuffer \<Rightarrow> bool \<times> OutputBuffer" where
  "StringTable_WriteTo header t out =
     (case StringTable_WriteTo_loop (unat (part_length header)) (strings t) 0 out of
        (True, out') \<Rightarrow> (True, out' @ [Align])
      | (False, out') \<Rightarrow> (False, out'))"

section \<open>EventBuffer\<close>

text \<open>
  What the source leaves undefined is a value of the model: a dereference of a pointer to
  no chunk of the store, and a read of \<open>slots[i]\<close> beyond the slot storage.
\<close>

datatype fault = InvalidPointer | SlotOutOfRange

text \<open>
  Modelled from the spec: \<open>struct Chunk\<close> and its constructor are declared in the header,
  which is not part of the sources. The spec gives a chunk a slot array of fixed capacity,
  a writer-local count \<open>size\<close>, an atomic \<open>published_size\<close> and an atomic \<open>next\<close>
  pointer, initially null; \<open>Chunk(limit)\<close> allocates the array with \<open>limit\<close> slots.
  The fields \<open>size\<close> and \<open>next\<close> are \<open>size_c\<close> and \<open>next_c\<close> here: the one is a
  constant of HOL, the other a keyword of Isar. The content of a fresh slot array is not
  initialised by the source; the model fills it with zeros and no theorem below depends
  on that.
\<close>

record Chunk =
  limit :: nat
  slots :: "u32 list"
  size_c :: nat
  published_size :: nat
  next_c :: "nat option"

definition Chunk_new :: "nat \<Rightarrow> Chunk" where
  "Chunk_new lim =
     \<lparr>limit = lim, slots = replicate lim 0, size_c = 0, published_size = 0, next_c = None\<rparr>"

text \<open>
  Chunks live in a store, a list indexed by address; \<open>new Chunk\<close> extends the store and
  the address of the new chunk is the old length, so it is fresh. A \<open>Chunk*\<close> is an
  address, and a \<open>next\<close> pointer an optional address with \<open>None\<close> for null. The buffer
  carries the store of its chunks. The member \<open>string_table_\<close> is used by no function of
  the sources and is left out.
\<close>

record EventBuffer =
  chunk_limit :: nat
  head :: nat
  current :: nat
  heap :: "Chunk list"

text \<open>
  The constructor, lines 106 to 114. \<open>kMinimumChunkSizeBytes\<close> is declared in the header,
  which is not part of the sources: it is a parameter. \<open>sizeof(uint32_t)\<close> is 4.
\<close>

definition EventBuffer_new :: "nat \<Rightarrow> nat \<Rightarrow> EventBuffer" where
  "EventBuffer_new kMinimumChunkSizeBytes chunk_size_bytes =
     (let chunk_size_bytes' =
            (if chunk_size_bytes < kMinimumChunkSizeBytes then kMinimumChunkSizeBytes
             else chunk_size_bytes);
          lim = chunk_size_bytes' div 4
      in \<lparr>chunk_limit = lim, head = 0, current = 0, heap = [Chunk_new lim]\<rparr>)"

text \<open>A store to the chunk at an address.\<close>

definition store_Chunk :: "nat \<Rightarrow> (Chunk \<Rightarrow> Chunk) \<Rightarrow> EventBuffer \<Rightarrow> EventBuffer" where
  "store_Chunk a f b = b\<lparr>heap := (heap b)[a := f (heap b ! a)]\<rparr>"

text \<open>
  \<open>ExpandAndAddSlots\<close>, lines 125 to 140, statement by statement: the states after the
  allocation (line 126), after \<open>new_chunk->size = count\<close> (127), after the store to
  \<open>current_->published_size\<close> (130), after the store to \<open>current_->next\<close> (134) and
  after \<open>current_ = new_chunk\<close> (137), in program order.
\<close>

definition ExpandAndAddSlots_steps :: "nat \<Rightarrow> EventBuffer \<Rightarrow> EventBuffer list" where
  "ExpandAndAddSlots_steps count b =
     (let new_chunk = length (heap b);
          b1 = b\<lparr>heap := heap b @ [Chunk_new (chunk_limit b)]\<rparr>;
          b2 = store_Chunk new_chunk (\<lambda>c. c\<lparr>size_c := count\<rparr>) b1;
          b3 = store_Chunk (current b2)
                 (\<lambda>c. c\<lparr>published_size := size_c (heap b2 ! current b2)\<rparr>) b2;
          b4 = store_Chunk (current b3) (\<lambda>c. c\<lparr>next_c := Some new_chunk\<rparr>) b3;
          b5 = b4\<lparr>current := new_chunk\<rparr>
      in [b1, b2, b3, b4, b5])"

text \<open>
  The function returns \<open>new_chunk->slots\<close>: the model returns the address of the new
  chunk, whose slot storage the returned region starts at, with the final state.
\<close>

definition ExpandAndAddSlots :: "nat \<Rightarrow> EventBuffer \<Rightarrow> fault + nat \<times> EventBuffer" where
  "ExpandAndAddSlots count b =
     (if current b < length (heap b)
      then Inr (length (heap b), last (ExpandAndAddSlots_steps count b))
      else Inl InvalidPointer)"

text \<open>
  The walk of \<open>EventBuffer::PopulateHeader\<close>, lines 144 to 148. A walk that never reaches
  null has no result (\<open>None\<close>). The atomic loads of a walk read the store \<open>h\<close>: the
  model lets a walk read one state of the store, although the writer may run between two
  loads of a reader. What is proved below about \<open>WriteTo\<close> holds for every state of the
  store.
\<close>

partial_function (option) EventBuffer_PopulateHeader_loop ::
  "Chunk list \<Rightarrow> nat option \<Rightarrow> nat \<Rightarrow> (fault + nat) option" where
  "EventBuffer_PopulateHeader_loop h chunk published_slot_count =
     (case chunk of
        None \<Rightarrow> Some (Inr published_slot_count)
      | Some a \<Rightarrow>
          if a < length h
          then EventBuffer_PopulateHeader_loop h (next_c (h ! a))
                 (published_slot_count + published_size (h ! a))
          else Some (Inl InvalidPointer))"

definition EventBuffer_PopulateHeader ::
  "EventBuffer \<Rightarrow> PartHeader \<Rightarrow> (fault + PartHeader) option" where
  "EventBuffer_PopulateHeader b header =
     (case EventBuffer_PopulateHeader_loop (heap b) (Some (head b)) 0 of
        None \<Rightarrow> None
      | Some (Inl f) \<Rightarrow> Some (Inl f)
      | Some (Inr published_slot_count) \<Rightarrow>
          Some (Inr (header\<lparr>part_type := 0x20002, part_offset := 0,
                            part_length := of_nat (published_slot_count * 4)\<rparr>)))"

text \<open>The inner loop of \<open>EventBuffer::WriteTo\<close>, lines 169 to 171.\<close>

definition append_slots :: "u32 list \<Rightarrow> nat \<Rightarrow> OutputBuffer \<Rightarrow> fault + OutputBuffer" where
  "append_slots sl append_count out =
     (if append_count \<le> length sl
      then Inr (out @ map (\<lambda>i. AppendUint32 (sl ! i)) [0..<append_count])
      else Inl SlotOutOfRange)"

text \<open>
  The outer loop, lines 159 to 174. The result carries the output as it stands when the
  function returns, also when it returns \<open>false\<close>.
\<close>

partial_function (option) EventBuffer_WriteTo_loop ::
  "Chunk list \<Rightarrow> nat option \<Rightarrow> nat \<Rightarrow> OutputBuffer \<Rightarrow> (fault + bool \<times> OutputBuffer) option" where
  "EventBuffer_WriteTo_loop h chunk count out =
     (if count > 0 then
        (case chunk of
           None \<Rightarrow> Some (Inr (False, out))
         | Some a \<Rightarrow>
             if a < length h then
               (let published = published_size (h ! a);
                    append_count = min count published
                in case append_slots (slots (h ! a)) append_count out of
                     Inl f \<Rightarrow> Some (Inl f)
                   | Inr out' \<Rightarrow>
                       EventBuffer_WriteTo_loop h (next_c (h ! a)) (count - append_count) out')
             else Some (Inl InvalidPointer))
      else Some (Inr (True, out)))"

definition EventBuffer_WriteTo ::
  "PartHeader \<Rightarrow> EventBuffer \<Rightarrow> OutputBuffer \<Rightarrow> (fault + bool \<times> OutputBuffer) option" where
  "EventBuffer_WriteTo header b out =
     EventBuffer_WriteTo_loop (heap b) (Some (head b)) (unat (part_length header) div 4) out"

section \<open>Chunk chains\<close>

text \<open>
  \<open>chain h p as\<close>: following \<open>next\<close> from the pointer \<open>p\<close> visits exactly the addresses
  \<open>as\<close>, each a chunk of the store, and then reaches null.
\<close>

fun chain :: "Chunk list \<Rightarrow> nat option \<Rightarrow> nat list \<Rightarrow> bool" where
  "chain h p [] = (p = None)"
| "chain h p (a # as) = (p = Some a \<and> a < length h \<and> chain h (next_c (h ! a)) as)"

text \<open>Every published slot of the chunks at \<open>as\<close> lies in the chunk's slot storage.\<close>

fun readable :: "Chunk list \<Rightarrow> nat list \<Rightarrow> bool" where
  "readable h [] = True"
| "readable h (a # as) = (published_size (h ! a) \<le> length (slots (h ! a)) \<and> readable h as)"

text \<open>The published slots of the chunks at \<open>as\<close>, in chain order.\<close>

fun published_slots :: "Chunk list \<Rightarrow> nat list \<Rightarrow> u32 list" where
  "published_slots h [] = []"
| "published_slots h (a # as) =
     take (published_size (h ! a)) (slots (h ! a)) @ published_slots h as"

fun published_total :: "Chunk list \<Rightarrow> nat list \<Rightarrow> nat" where
  "published_total h [] = 0"
| "published_total h (a # as) = published_size (h ! a) + published_total h as"

section \<open>Notions of the specification\<close>

text \<open>
  \<open>align4\<close> of the spec, on unbounded numbers: the least multiple of 4 that is not below
  the argument.
\<close>

definition align4 :: "nat \<Rightarrow> nat" where
  "align4 n = (n + 3) div 4 * 4"

text \<open>The sum of the aligned lengths of a sequence of parts, as the source computes it.\<close>

definition aligned_total :: "PartHeader list \<Rightarrow> u32" where
  "aligned_total parts = sum_list (map (\<lambda>p. aligned_length_of (part_length p)) parts)"

text \<open>The same sum over unbounded numbers.\<close>

definition align4_total :: "PartHeader list \<Rightarrow> nat" where
  "align4_total parts = sum_list (map (\<lambda>p. align4 (unat (part_length p))) parts)"

text \<open>
  The invariant of the string table: the vector holds no string twice, and the map sends
  a string to an id exactly when the id is the position of the string in the vector,
  narrowed to an \<open>int\<close>.
\<close>

definition table_inv :: "StringTable \<Rightarrow> bool" where
  "table_inv t =
     (distinct (strings t) \<and>
      (\<forall>s i. strings_to_id t s = Some i \<longleftrightarrow>
               (\<exists>n<length (strings t). strings t ! n = s \<and> i = of_nat n)))"

text \<open>The string of \<open>n\<close> letters a: a supply of pairwise distinct strings.\<close>

definition unary :: "nat \<Rightarrow> string" where
  "unary n = replicate n (CHR ''a'')"

text \<open>
  The serialized size of a sequence of table entries, each string with its terminating
  zero byte, and the calls that write them, one \<open>Append\<close> per entry, in order.
\<close>

definition serialized_size :: "string list \<Rightarrow> nat" where
  "serialized_size ss = sum_list (map (\<lambda>s. length s + 1) ss)"

definition serialized_entries :: "string list \<Rightarrow> OutputBuffer" where
  "serialized_entries ss = map (\<lambda>s. Append (s @ [CHR 0x00])) ss"

text \<open>
  The writer's chunk is a chunk of the store and is the tail of the list: its \<open>next\<close> is
  null.
\<close>

definition tail_ok :: "EventBuffer \<Rightarrow> bool" where
  "tail_ok b = (current b < length (heap b) \<and> next_c (heap b ! current b) = None)"

text \<open>
  The sealing invariant of the spec: a chunk whose \<open>next\<close> is not null has its
  \<open>published_size\<close> equal to its \<open>size\<close>.
\<close>

definition sealed_ok :: "EventBuffer \<Rightarrow> bool" where
  "sealed_ok b =
     list_all (\<lambda>c. next_c c \<noteq> None \<longrightarrow> published_size c = size_c c) (heap b)"

text \<open>
  \<open>untouched b s\<close>: every chunk of \<open>b\<close> whose \<open>next\<close> is not null is the same chunk,
  field by field, in the state \<open>s\<close>.
\<close>

definition untouched :: "EventBuffer \<Rightarrow> EventBuffer \<Rightarrow> bool" where
  "untouched b s =
     (\<forall>a<length (heap b). next_c (heap b ! a) \<noteq> None \<longrightarrow> heap s ! a = heap b ! a)"

section \<open>Auxiliary facts\<close>

subsection \<open>Word arithmetic of the layout\<close>

lemma unat_aligned_length_of:
  "unat (aligned_length_of w) = align4 (unat w) mod 2 ^ 32"
proof -
  let ?n = "unat w"
  have m: "unat (w mod 4) = ?n mod 4" by (simp add: unat_mod)
  show ?thesis
  proof (cases "w mod 4 = 0")
    case True
    then have "?n mod 4 = 0" using m by simp
    then have "align4 ?n = ?n" unfolding align4_def by presburger
    moreover have "?n < 2 ^ 32" using unsigned_less[of w] by simp
    ultimately show ?thesis using True by (simp add: aligned_length_of_def kAlignment_def)
  next
    case False
    then have r: "?n mod 4 \<noteq> 0" using m by (metis unat_eq_zero)
    have le: "w mod 4 \<le> 4" by (simp add: word_le_nat_alt unat_mod)
    have "unat (4 - w mod 4) = 4 - ?n mod 4"
      using le by (simp add: unat_sub m)
    then have "unat (w + (4 - w mod 4)) = (?n + (4 - ?n mod 4)) mod 2 ^ 32"
      by (simp add: unat_word_ariths)
    moreover have "?n + (4 - ?n mod 4) = align4 ?n" using r unfolding align4_def by presburger
    ultimately show ?thesis using False by (simp add: aligned_length_of_def kAlignment_def)
  qed
qed

lemma dvd4_mod32: "4 dvd (n::nat) \<Longrightarrow> 4 dvd n mod 4294967296"
proof -
  assume a: "4 dvd n"
  have b: "(4::nat) dvd 4294967296" by simp
  show ?thesis using a b by (rule dvd_mod)
qed

lemma dvd_aligned_length_of: "4 dvd unat (aligned_length_of w)"
  by (simp add: unat_aligned_length_of dvd4_mod32 align4_def)

lemma unat_aligned_total_Cons:
  "unat (aligned_total (p # ps)) =
     (unat (aligned_length_of (part_length p)) + unat (aligned_total ps)) mod 2 ^ 32"
  by (simp add: aligned_total_def unat_word_ariths)

lemma dvd_aligned_total: "4 dvd unat (aligned_total parts)"
proof (induction parts)
  case Nil
  then show ?case by (simp add: aligned_total_def)
next
  case (Cons p ps)
  then show ?case
    using dvd_aligned_length_of[of "part_length p"]
    by (simp add: unat_aligned_total_Cons dvd4_mod32)
qed

lemma unat_aligned_total: "unat (aligned_total parts) = align4_total parts mod 2 ^ 32"
proof (induction parts)
  case Nil
  then show ?case by (simp add: aligned_total_def align4_total_def)
next
  case (Cons p ps)
  have "align4_total (p # ps) = align4 (unat (part_length p)) + align4_total ps"
    by (simp add: align4_total_def)
  then show ?case
    unfolding unat_aligned_total_Cons Cons unat_aligned_length_of
    by (simp add: mod_simps)
qed

lemma align4_total_take_le: "align4_total (take i parts) \<le> align4_total parts"
proof -
  have "align4_total (take i parts @ drop i parts)
          = align4_total (take i parts) + align4_total (drop i parts)"
    unfolding align4_total_def map_append sum_list_append ..
  then show ?thesis by simp
qed

subsection \<open>The two loops of StartChunk\<close>

lemma StartChunk_layout_Cons:
  "StartChunk_layout (p # ps) cl po =
     (p\<lparr>part_offset := po\<rparr> #
        fst (StartChunk_layout ps (cl + aligned_length_of (part_length p))
               (po + aligned_length_of (part_length p))),
      snd (StartChunk_layout ps (cl + aligned_length_of (part_length p))
             (po + aligned_length_of (part_length p))))"
  by (simp add: Let_def case_prod_beta)

lemma StartChunk_layout_snd:
  "snd (StartChunk_layout parts cl po) = cl + aligned_total parts"
  by (induction parts arbitrary: cl po)
     (simp_all add: aligned_total_def StartChunk_layout_Cons add.assoc
        del: StartChunk_layout.simps(2))

lemma StartChunk_layout_length:
  "length (fst (StartChunk_layout parts cl po)) = length parts"
  by (induction parts arbitrary: cl po)
     (simp_all add: StartChunk_layout_Cons del: StartChunk_layout.simps(2))

lemma StartChunk_layout_nth:
  "i < length parts \<Longrightarrow>
     fst (StartChunk_layout parts cl po) ! i
       = (parts ! i)\<lparr>part_offset := po + aligned_total (take i parts)\<rparr>"
proof (induction parts arbitrary: cl po i)
  case Nil
  then show ?case by simp
next
  case (Cons p ps)
  show ?case
  proof (cases i)
    case 0
    then show ?thesis
      by (simp add: aligned_total_def StartChunk_layout_Cons del: StartChunk_layout.simps(2))
  next
    case (Suc j)
    then have "j < length ps" using Cons.prems by simp
    from Cons.IH[OF this] show ?thesis using Suc
      by (simp add: aligned_total_def StartChunk_layout_Cons add.assoc
            del: StartChunk_layout.simps(2))
  qed
qed

lemma StartChunk_emit_parts_eq:
  "StartChunk_emit_parts ps out =
     out @ concat (map (\<lambda>p. map AppendUint32 [part_type p, part_offset p, part_length p]) ps)"
  by (induction ps arbitrary: out) simp_all

lemma StartChunk_eq:
  "StartChunk header parts out =
     (fst (StartChunk_layout parts (of_nat (kChunkHeaderSize + length parts * kPartHeaderSize)) 0),
      out @ map AppendUint32 [chunk_id header, chunk_type header,
              24 + 12 * of_nat (length parts) + aligned_total parts,
              chunk_start_time header, chunk_end_time header, of_nat (length parts)]
          @ concat (map (\<lambda>p. map AppendUint32 [part_type p, part_offset p, part_length p])
              (fst (StartChunk_layout parts
                      (of_nat (kChunkHeaderSize + length parts * kPartHeaderSize)) 0))))"
  by (simp add: StartChunk_def Let_def case_prod_beta StartChunk_emit_parts_eq
        StartChunk_layout_snd kChunkHeaderSize_def kPartHeaderSize_def mult.commute)

subsection \<open>The walks over a chunk chain\<close>

lemma published_slots_length:
  "readable h as \<Longrightarrow> length (published_slots h as) = published_total h as"
  by (induction as) simp_all

lemma EventBuffer_PopulateHeader_loop_chain:
  "chain h p as \<Longrightarrow>
     EventBuffer_PopulateHeader_loop h p n = Some (Inr (n + published_total h as))"
proof (induction as arbitrary: p n)
  case Nil
  then show ?case by (subst EventBuffer_PopulateHeader_loop.simps) simp
next
  case (Cons a as)
  then show ?case by (subst EventBuffer_PopulateHeader_loop.simps) simp
qed

lemma EventBuffer_PopulateHeader_chain:
  assumes "chain (heap b) (Some (head b)) as"
  shows "EventBuffer_PopulateHeader b header =
     Some (Inr (header\<lparr>part_type := 0x20002, part_offset := 0,
                        part_length := 4 * of_nat (published_total (heap b) as)\<rparr>))"
  unfolding EventBuffer_PopulateHeader_def
    EventBuffer_PopulateHeader_loop_chain[OF assms]
  by (simp add: mult.commute)

lemma append_slots_in_range:
  assumes "n \<le> length sl"
  shows "append_slots sl n out = Inr (out @ map AppendUint32 (take n sl))"
proof -
  have "map (\<lambda>i. AppendUint32 (sl ! i)) [0..<n] = map AppendUint32 (take n sl)"
    using assms by (simp add: list_eq_iff_nth_eq)
  then show ?thesis using assms by (simp add: append_slots_def)
qed

lemma EventBuffer_WriteTo_loop_chain:
  "chain h p as \<Longrightarrow> readable h as \<Longrightarrow>
     EventBuffer_WriteTo_loop h p count out =
       Some (Inr (count \<le> published_total h as,
                  out @ map AppendUint32 (take count (published_slots h as))))"
proof (induction as arbitrary: p count out)
  case Nil
  then show ?case by (subst EventBuffer_WriteTo_loop.simps) simp
next
  case (Cons a as)
  show ?case
  proof (cases "count = 0")
    case True
    then show ?thesis by (subst EventBuffer_WriteTo_loop.simps) simp
  next
    case False
    let ?c = "h ! a"
    let ?ac = "min count (published_size ?c)"
    from Cons.prems have p: "p = Some a" "a < length h"
      and ch: "chain h (next_c ?c) as"
      and rd: "published_size ?c \<le> length (slots ?c)" "readable h as"
      by simp_all
    have ac: "?ac \<le> length (slots ?c)" using rd by simp
    have step: "EventBuffer_WriteTo_loop h p count out =
        EventBuffer_WriteTo_loop h (next_c ?c) (count - ?ac)
          (out @ map AppendUint32 (take ?ac (slots ?c)))"
      using False p append_slots_in_range[OF ac, of out]
      by (subst EventBuffer_WriteTo_loop.simps) (simp add: Let_def)
    have tk: "take count (published_slots h (a # as)) =
        take ?ac (slots ?c) @ take (count - ?ac) (published_slots h as)"
      using rd by (simp add: min_def)
    show ?thesis
      unfolding step Cons.IH[OF ch rd(2)] tk using rd by (auto simp: min_def)
  qed
qed

lemma EventBuffer_WriteTo_chain:
  assumes "chain (heap b) (Some (head b)) as" and "readable (heap b) as"
  shows "EventBuffer_WriteTo header b out =
     Some (Inr (unat (part_length header) div 4 \<le> published_total (heap b) as,
                out @ map AppendUint32
                  (take (unat (part_length header) div 4) (published_slots (heap b) as))))"
  unfolding EventBuffer_WriteTo_def by (rule EventBuffer_WriteTo_loop_chain[OF assms])

subsection \<open>The invariant of the string table\<close>

lemma of_nat_int32_inj:
  "m < 2 ^ 32 \<Longrightarrow> n < 2 ^ 32 \<Longrightarrow> (of_nat m :: int32) = of_nat n \<Longrightarrow> m = n"
proof -
  assume a: "m < 2 ^ 32" "n < 2 ^ 32" "(of_nat m :: int32) = of_nat n"
  from a(3) have "unat (of_nat m :: int32) = unat (of_nat n :: int32)" by simp
  then show ?thesis using a(1,2) by (simp add: unat_of_nat)
qed

lemma sint_of_nat_int32:
  assumes "n < 2 ^ 31"
  shows "sint (of_nat n :: int32) = int n"
proof -
  have a: "sint (of_nat n :: int32) = signed_take_bit 31 (int n)"
    by (simp add: signed_of_nat)
  have b: "- (2 ^ 31) \<le> int n" by (rule order_trans[of _ 0]) simp_all
  have c: "int n < 2 ^ 31"
    using assms by (metis of_nat_less_iff of_nat_numeral of_nat_power)
  show ?thesis unfolding a using b c by (rule signed_take_bit_int_eq_self)
qed

lemma table_inv_Clear: "table_inv (Clear t)"
  by (simp add: table_inv_def Clear_def)

lemma GetStringId_known:
  assumes "table_inv t" and "n < length (strings t)" and "strings t ! n = s"
  shows "GetStringId s t = (of_nat n, t)"
proof -
  have "strings_to_id t s = Some (of_nat n)"
    using assms unfolding table_inv_def by blast
  then show ?thesis by (simp add: GetStringId_def)
qed

lemma GetStringId_inv:
  assumes inv: "table_inv t" and run: "GetStringId s t = (i, t')"
  shows "table_inv t' \<and> (\<exists>n<length (strings t'). strings t' ! n = s \<and> i = of_nat n) \<and>
     strings t' = strings t @ (if s \<in> set (strings t) then [] else [s])"
proof (cases "strings_to_id t s")
  case None
  have new: "s \<notin> set (strings t)"
  proof
    assume "s \<in> set (strings t)"
    then obtain n where "n < length (strings t)" and "strings t ! n = s"
      by (auto simp: in_set_conv_nth)
    then have "strings_to_id t s = Some (of_nat n)"
      using inv unfolding table_inv_def by blast
    then show False using None by simp
  qed
  from None run have i: "i = of_nat (length (strings t))"
    and t': "t' = t\<lparr>strings := strings t @ [s],
                    strings_to_id := (strings_to_id t)(s \<mapsto> of_nat (length (strings t)))\<rparr>"
    by (auto simp: GetStringId_def Let_def)
  have nowhere: "strings t ! n \<noteq> s" if "n < length (strings t)" for n
    using new that by (auto simp: in_set_conv_nth)
  have "table_inv t'"
    unfolding table_inv_def
  proof (intro conjI allI)
    show "distinct (strings t')" using inv new by (simp add: t' table_inv_def)
    fix s' j
    show "strings_to_id t' s' = Some j \<longleftrightarrow>
            (\<exists>n<length (strings t'). strings t' ! n = s' \<and> j = of_nat n)"
    proof (cases "s' = s")
      case True
      have "(\<exists>n<Suc (length (strings t)). (strings t @ [s]) ! n = s \<and> j = of_nat n)
              \<longleftrightarrow> j = of_nat (length (strings t))"
        using nowhere by (auto simp: nth_append less_Suc_eq)
      then show ?thesis using True by (auto simp: t')
    next
      case False
      have old: "strings_to_id t s' = Some j \<longleftrightarrow>
              (\<exists>n<length (strings t). strings t ! n = s' \<and> j = of_nat n)"
        using inv unfolding table_inv_def by blast
      have "(\<exists>n<Suc (length (strings t)). (strings t @ [s]) ! n = s' \<and> j = of_nat n)
              \<longleftrightarrow> (\<exists>n<length (strings t). strings t ! n = s' \<and> j = of_nat n)"
        using False by (auto simp: nth_append less_Suc_eq)
      then show ?thesis using False old by (simp add: t')
    qed
  qed
  moreover have "\<exists>n<length (strings t'). strings t' ! n = s \<and> i = of_nat n"
    unfolding t' i by (rule exI[of _ "length (strings t)"]) simp
  ultimately show ?thesis using new by (simp add: t')
next
  case (Some k)
  with run have "i = k" "t' = t" by (simp_all add: GetStringId_def)
  moreover have "\<exists>n<length (strings t). strings t ! n = s \<and> k = of_nat n"
    using inv Some unfolding table_inv_def by blast
  moreover have "s \<in> set (strings t)"
    using calculation(3) by (auto simp: in_set_conv_nth)
  ultimately show ?thesis using inv by auto
qed

lemma distinct_nth_inj:
  "distinct xs \<Longrightarrow> m < length xs \<Longrightarrow> n < length xs \<Longrightarrow> xs ! m = xs ! n \<Longrightarrow> m = n"
  by (simp add: nth_eq_iff_index_eq)

lemma remdups_known:
  "s \<in> set ys \<Longrightarrow> remdups (xs @ s # ys) = remdups (xs @ ys)"
  by (induction xs) (auto simp: insert_absorb)

lemma GetStringIds_inv:
  "table_inv t \<Longrightarrow> GetStringIds ss t = (ids, t') \<Longrightarrow>
     table_inv t' \<and> length ids = length ss \<and>
     strings t' = rev (remdups (rev (strings t @ ss))) \<and>
     (\<exists>ext. strings t' = strings t @ ext) \<and>
     (\<forall>k<length ss. \<exists>n<length (strings t'). strings t' ! n = ss ! k \<and> ids ! k = of_nat n)"
proof (induction ss arbitrary: t ids t')
  case Nil
  then show ?case by (simp add: table_inv_def distinct_remdups_id)
next
  case (Cons s ss)
  obtain i t1 where one: "GetStringId s t = (i, t1)" by (cases "GetStringId s t")
  obtain js t2 where rest: "GetStringIds ss t1 = (js, t2)" by (cases "GetStringIds ss t1")
  from Cons.prems(2) one rest have ids: "ids = i # js" and t': "t' = t2" by simp_all
  note h1 = GetStringId_inv[OF Cons.prems(1) one]
  then have inv1: "table_inv t1"
    and st1: "strings t1 = strings t @ (if s \<in> set (strings t) then [] else [s])"
    by blast+
  from h1 obtain n0 where n0: "n0 < length (strings t1)" "strings t1 ! n0 = s" "i = of_nat n0"
    by blast
  note h2 = Cons.IH[OF inv1 rest]
  then have inv2: "table_inv t2" and len: "length js = length ss"
    and st2: "strings t2 = rev (remdups (rev (strings t1 @ ss)))"
    and nth: "\<forall>k<length ss. \<exists>n<length (strings t2). strings t2 ! n = ss ! k \<and> js ! k = of_nat n"
    by blast+
  from h2 obtain ext where ext: "strings t2 = strings t1 @ ext" by blast
  have a: "strings t2 = rev (remdups (rev (strings t @ s # ss)))"
    unfolding st2 st1 by (simp add: remdups_known)
  have b: "\<exists>e. strings t2 = strings t @ e" unfolding ext st1 by simp
  have c: "\<exists>n<length (strings t2). strings t2 ! n = (s # ss) ! k \<and> (i # js) ! k = of_nat n"
    if "k < length (s # ss)" for k
  proof (cases k)
    case 0
    have "n0 < length (strings t2) \<and> strings t2 ! n0 = s \<and> i = of_nat n0"
      using n0 by (simp add: ext nth_append)
    then show ?thesis using 0 by auto
  next
    case (Suc m)
    then show ?thesis using that nth by simp
  qed
  show ?case unfolding ids t' using inv2 len a b c by simp
qed

lemma GetStringIds_cleared:
  assumes "GetStringIds ss (Clear t0) = (ids, t)"
  shows "table_inv t \<and> length ids = length ss \<and>
     strings t = rev (remdups (rev ss)) \<and>
     (\<forall>k<length ss. \<exists>n<length (strings t). strings t ! n = ss ! k \<and> ids ! k = of_nat n)"
proof -
  have e: "strings (Clear t0) = []" by (simp add: Clear_def)
  note h = GetStringIds_inv[OF table_inv_Clear assms, unfolded e append_Nil]
  then show ?thesis by blast
qed

lemma unary_inj: "unary m = unary n \<Longrightarrow> m = n"
proof -
  assume "unary m = unary n"
  then have "length (unary m) = length (unary n)" by simp
  then show ?thesis by (simp add: unary_def)
qed

lemma distinct_unary: "distinct (map unary [0..<m])"
  by (simp add: distinct_map inj_on_def) (blast dest: unary_inj)

lemma GetStringIds_unary:
  assumes "k < m"
  shows "fst (GetStringIds (map unary [0..<m]) (Clear t0)) ! k = of_nat k"
proof -
  let ?ss = "map unary [0..<m]"
  obtain ids t where run: "GetStringIds ?ss (Clear t0) = (ids, t)"
    by (cases "GetStringIds ?ss (Clear t0)")
  note h = GetStringIds_cleared[OF run]
  have st: "strings t = ?ss"
    using h distinct_unary[of m] by (simp add: distinct_remdups_id)
  have k: "k < length ?ss" using assms by simp
  with h obtain n where n: "n < length (strings t)" "strings t ! n = ?ss ! k" "ids ! k = of_nat n"
    by blast
  have "n = k"
    using distinct_nth_inj[OF distinct_unary[of m], of n k] n(1,2) k unfolding st by blast
  then show ?thesis using n(3) run by simp
qed

subsection \<open>The loops of the string table\<close>

lemma raw_length_of_eq: "raw_length_of ss n = n + serialized_size ss"
  by (induction ss arbitrary: n) (simp_all add: serialized_size_def)

lemma serialized_size_Cons [simp]:
  "serialized_size (s # ss) = length s + 1 + serialized_size ss"
  by (simp add: serialized_size_def)

lemma serialized_size_Nil [simp]: "serialized_size [] = 0"
  by (simp add: serialized_size_def)

lemma serialized_size_zero: "serialized_size ss = 0 \<longleftrightarrow> ss = []"
  by (cases ss) simp_all

lemma appended_bytes_append [simp]:
  "appended_bytes (xs @ ys) = appended_bytes xs + appended_bytes ys"
  by (simp add: appended_bytes_def)

lemma appended_bytes_serialized_entries:
  "appended_bytes (serialized_entries ss) = serialized_size ss"
  by (induction ss) (simp_all add: appended_bytes_def serialized_entries_def)

lemma StringTable_WriteTo_loop_all:
  "r + serialized_size ss \<le> E \<Longrightarrow>
     StringTable_WriteTo_loop E ss r out = (True, out @ serialized_entries ss)"
proof (induction ss arbitrary: r out)
  case Nil
  then show ?case by (simp add: serialized_entries_def)
next
  case (Cons s ss)
  show ?case
  proof (cases "r + (length s + 1) = E")
    case True
    with Cons.prems have "serialized_size ss = 0" by simp
    then have "ss = []" by (simp add: serialized_size_zero)
    then show ?thesis using True by (simp add: serialized_entries_def)
  next
    case False
    have "r + (length s + 1) + serialized_size ss \<le> E" using Cons.prems by simp
    from Cons.IH[OF this] show ?thesis
      using False Cons.prems by (simp add: serialized_entries_def Let_def)
  qed
qed

lemma StringTable_WriteTo_loop_false_iff:
  "r \<le> E \<Longrightarrow>
     \<not> fst (StringTable_WriteTo_loop E ss r out) \<longleftrightarrow>
       E < r + serialized_size ss \<and>
       (\<forall>k. 1 \<le> k \<and> k \<le> length ss \<longrightarrow> r + serialized_size (take k ss) \<noteq> E)"
proof (induction ss arbitrary: r out)
  case Nil
  then show ?case by simp
next
  case (Cons s ss)
  let ?r' = "r + (length s + 1)"
  consider (over) "E < ?r'" | (hit) "?r' = E" | (under) "?r' < E" by linarith
  then show ?case
  proof cases
    case over
    have "r + serialized_size (take k (s # ss)) \<noteq> E" if "1 \<le> k" for k
    proof -
      from that obtain m where "k = Suc m" by (cases k) simp_all
      then show ?thesis using over by simp
    qed
    then show ?thesis using over by (simp add: Let_def)
  next
    case hit
    have "\<not> (\<forall>k. 1 \<le> k \<and> k \<le> length (s # ss) \<longrightarrow> r + serialized_size (take k (s # ss)) \<noteq> E)"
      using hit by (auto intro!: exI[of _ 1])
    then show ?thesis using hit by (simp add: Let_def)
  next
    case under
    then have le: "?r' \<le> E" by simp
    have q: "(\<forall>k. 1 \<le> k \<and> k \<le> length (s # ss) \<longrightarrow> r + serialized_size (take k (s # ss)) \<noteq> E)
          \<longleftrightarrow> (\<forall>k. 1 \<le> k \<and> k \<le> length ss \<longrightarrow> ?r' + serialized_size (take k ss) \<noteq> E)"
      (is "?L \<longleftrightarrow> ?R")
    proof
      assume l: ?L
      show ?R
      proof (intro allI impI)
        fix k assume "1 \<le> k \<and> k \<le> length ss"
        then have "1 \<le> Suc k \<and> Suc k \<le> length (s # ss)" by simp
        from l[rule_format, OF this] show "?r' + serialized_size (take k ss) \<noteq> E"
          by (simp add: add.assoc)
      qed
    next
      assume r: ?R
      show ?L
      proof (intro allI impI)
        fix k assume k: "1 \<le> k \<and> k \<le> length (s # ss)"
        then obtain m where m: "k = Suc m" by (cases k) simp_all
        show "r + serialized_size (take k (s # ss)) \<noteq> E"
        proof (cases m)
          case 0
          then show ?thesis using m under by simp
        next
          case (Suc j)
          then have "1 \<le> m \<and> m \<le> length ss" using k m by simp
          from r[rule_format, OF this] show ?thesis using m by (simp add: add.assoc)
        qed
      qed
    qed
    show ?thesis
      using under Cons.IH[OF le] unfolding q by (simp add: Let_def add.assoc)
  qed
qed

lemma StringTable_WriteTo_false_iff:
  "\<not> fst (StringTable_WriteTo header t out) \<longleftrightarrow>
     unat (part_length header) < serialized_size (strings t) \<and>
     (\<forall>k. 1 \<le> k \<and> k \<le> length (strings t) \<longrightarrow>
           serialized_size (take k (strings t)) \<noteq> unat (part_length header))"
proof -
  have "fst (StringTable_WriteTo header t out) =
      fst (StringTable_WriteTo_loop (unat (part_length header)) (strings t) 0 out)"
    by (simp add: StringTable_WriteTo_def split: prod.splits bool.splits)
  then show ?thesis
    using StringTable_WriteTo_loop_false_iff[of 0 "unat (part_length header)" "strings t" out]
    by simp
qed

subsection \<open>ExpandAndAddSlots in closed form\<close>

lemma ExpandAndAddSlots_steps_eq:
  assumes "current b < length (heap b)"
  shows "ExpandAndAddSlots_steps count b =
     [b\<lparr>heap := heap b @ [Chunk_new (chunk_limit b)]\<rparr>,
      b\<lparr>heap := heap b @ [(Chunk_new (chunk_limit b))\<lparr>size_c := count\<rparr>]\<rparr>,
      b\<lparr>heap := (heap b)[current b :=
                    (heap b ! current b)\<lparr>published_size := size_c (heap b ! current b)\<rparr>]
                  @ [(Chunk_new (chunk_limit b))\<lparr>size_c := count\<rparr>]\<rparr>,
      b\<lparr>heap := (heap b)[current b :=
                    (heap b ! current b)\<lparr>published_size := size_c (heap b ! current b),
                                          next_c := Some (length (heap b))\<rparr>]
                  @ [(Chunk_new (chunk_limit b))\<lparr>size_c := count\<rparr>]\<rparr>,
      b\<lparr>current := length (heap b),
        heap := (heap b)[current b :=
                    (heap b ! current b)\<lparr>published_size := size_c (heap b ! current b),
                                          next_c := Some (length (heap b))\<rparr>]
                  @ [(Chunk_new (chunk_limit b))\<lparr>size_c := count\<rparr>]\<rparr>]"
  using assms
  by (simp add: ExpandAndAddSlots_steps_def store_Chunk_def Let_def nth_append
        list_update_append)

lemma ExpandAndAddSlots_eq:
  assumes "current b < length (heap b)"
  shows "ExpandAndAddSlots count b =
     Inr (length (heap b),
          b\<lparr>current := length (heap b),
            heap := (heap b)[current b :=
                        (heap b ! current b)\<lparr>published_size := size_c (heap b ! current b),
                                              next_c := Some (length (heap b))\<rparr>]
                      @ [(Chunk_new (chunk_limit b))\<lparr>size_c := count\<rparr>]\<rparr>)"
  using assms
  by (simp add: ExpandAndAddSlots_def ExpandAndAddSlots_steps_eq[OF assms])

subsection \<open>The invariants of the chunk list\<close>

lemma sealed_ok_nth:
  "sealed_ok b \<longleftrightarrow>
     (\<forall>a<length (heap b). next_c (heap b ! a) \<noteq> None \<longrightarrow>
        published_size (heap b ! a) = size_c (heap b ! a))"
  by (simp add: sealed_ok_def list_all_length)

lemma EventBuffer_new_invariants:
  "tail_ok (EventBuffer_new k n) \<and> sealed_ok (EventBuffer_new k n)"
  by (simp add: EventBuffer_new_def tail_ok_def sealed_ok_def Chunk_new_def Let_def)

section \<open>C1: the capacity of the chunk ExpandAndAddSlots allocates\<close>

text \<open>
  Claim C1, as amended. For every reservation of \<open>count\<close> slots, \<open>ExpandAndAddSlots\<close>
  allocates a single new chunk, makes it current and returns its slot storage. The size
  field of the chunk is \<open>count\<close>, but its slot storage has \<open>chunk_limit\<close> slots, whatever
  \<open>count\<close> is: every slot index below \<open>count\<close> lies within the storage exactly when
  \<open>count\<close> is at most \<open>chunk_limit\<close>.
\<close>

theorem ExpandAndAddSlots_new_chunk_capacity:
  assumes "current b < length (heap b)"
  shows "\<exists>b'. ExpandAndAddSlots count b = Inr (length (heap b), b') \<and>
     length (heap b') = Suc (length (heap b)) \<and>
     current b' = length (heap b) \<and>
     chunk_limit b' = chunk_limit b \<and>
     size_c (heap b' ! length (heap b)) = count \<and>
     limit (heap b' ! length (heap b)) = chunk_limit b \<and>
     length (slots (heap b' ! length (heap b))) = chunk_limit b \<and>
     ((\<forall>i<count. i < length (slots (heap b' ! length (heap b)))) \<longleftrightarrow> count \<le> chunk_limit b)"
proof -
  have "(\<forall>i<count. i < chunk_limit b) \<longleftrightarrow> count \<le> chunk_limit b"
    by (metis leD leI less_le_trans order_refl)
  then show ?thesis
    by (simp add: ExpandAndAddSlots_eq[OF assms] nth_append Chunk_new_def)
qed

text \<open>
  With chunks of 8 slots, a reservation of 5 slots gets a chunk of 8 slots with size 5.
\<close>

theorem ExpandAndAddSlots_new_chunk_capacity_witness:
  "ExpandAndAddSlots 5 (EventBuffer_new 32 32)
    = Inr (1,
       \<lparr>chunk_limit = 8, head = 0, current = 1,
        heap = [\<lparr>limit = 8, slots = replicate 8 0, size_c = 0, published_size = 0,
                 next_c = Some 1\<rparr>,
                \<lparr>limit = 8, slots = replicate 8 0, size_c = 5, published_size = 0,
                 next_c = None\<rparr>]\<rparr>) \<and>
   length (replicate 8 (0 :: u32)) = 8"
proof -
  let ?b0 = "EventBuffer_new 32 32"
  have v: "current ?b0 < length (heap ?b0)"
    by (simp add: EventBuffer_new_def Let_def)
  from ExpandAndAddSlots_new_chunk_capacity[OF v, of 5]
  obtain b' where r: "ExpandAndAddSlots 5 ?b0 = Inr (length (heap ?b0), b')"
    and l: "length (slots (heap b' ! length (heap ?b0))) = chunk_limit ?b0"
    by blast
  have "ExpandAndAddSlots 5 ?b0
    = Inr (1,
       \<lparr>chunk_limit = 8, head = 0, current = 1,
        heap = [\<lparr>limit = 8, slots = replicate 8 0, size_c = 0, published_size = 0,
                 next_c = Some 1\<rparr>,
                \<lparr>limit = 8, slots = replicate 8 0, size_c = 5, published_size = 0,
                 next_c = None\<rparr>]\<rparr>)"
    by (simp add: ExpandAndAddSlots_def ExpandAndAddSlots_steps_def store_Chunk_def Let_def
          Chunk_new_def EventBuffer_new_def)
  then show ?thesis using r l by simp
qed

text \<open>
  The claim as stated fails: with chunks of 8 slots, a reservation of 20 slots gets a
  chunk whose size field is 20 and whose slot storage has 8 slots, so the slot indices 8
  to 19 of the returned region lie beyond it.
\<close>

theorem ExpandAndAddSlots_oversize_overruns:
  "ExpandAndAddSlots 20 (EventBuffer_new 32 32)
    = Inr (1,
       \<lparr>chunk_limit = 8, head = 0, current = 1,
        heap = [\<lparr>limit = 8, slots = replicate 8 0, size_c = 0, published_size = 0,
                 next_c = Some 1\<rparr>,
                \<lparr>limit = 8, slots = replicate 8 0, size_c = 20, published_size = 0,
                 next_c = None\<rparr>]\<rparr>) \<and>
   length (replicate 8 (0 :: u32)) = 8 \<and> \<not> (19 :: nat) < 8"
  by (simp add: ExpandAndAddSlots_def ExpandAndAddSlots_steps_def store_Chunk_def Let_def
        Chunk_new_def EventBuffer_new_def)

section \<open>C2: the header of an event buffer bounds what WriteTo writes\<close>

text \<open>
  Claim C2, as amended. For every chunk chain, \<open>EventBuffer::PopulateHeader\<close> returns
  with type 0x20002, offset 0 and length 4 times the sum of the published sizes along the
  chain, narrowed to 32 bits; the length is the plain product when that is below 2^32. A
  later \<open>EventBuffer::WriteTo\<close> with that header, on any later state \<open>b'\<close> of the
  buffer, whatever its published sizes are by then, returns, and writes the first
  length/4 published slots of the chain of \<open>b'\<close>, in chain order from the head: never
  more than length/4 slots, and exactly length/4 when it returns true.
\<close>

theorem EventBuffer_header_bounds_WriteTo:
  fixes header :: PartHeader
  assumes "chain (heap b) (Some (head b)) as"
    and "chain (heap b') (Some (head b')) as'"
    and "readable (heap b') as'"
  defines "snap \<equiv> header\<lparr>part_type := 0x20002, part_offset := 0,
                          part_length := 4 * of_nat (published_total (heap b) as)\<rparr>"
  defines "n \<equiv> unat (part_length snap) div 4"
  shows "EventBuffer_PopulateHeader b header = Some (Inr snap) \<and>
     (4 * published_total (heap b) as < 2 ^ 32 \<longrightarrow>
        unat (part_length snap) = 4 * published_total (heap b) as) \<and>
     EventBuffer_WriteTo snap b' out =
       Some (Inr (n \<le> published_total (heap b') as',
                  out @ map AppendUint32 (take n (published_slots (heap b') as')))) \<and>
     length (take n (published_slots (heap b') as')) \<le> n \<and>
     (n \<le> published_total (heap b') as' \<longrightarrow>
        length (take n (published_slots (heap b') as')) = n)"
proof (intro conjI impI)
  show "EventBuffer_PopulateHeader b header = Some (Inr snap)"
    unfolding snap_def by (rule EventBuffer_PopulateHeader_chain[OF assms(1)])
  show "unat (part_length snap) = 4 * published_total (heap b) as"
    if "4 * published_total (heap b) as < 2 ^ 32"
    using that by (simp add: snap_def unat_word_ariths unat_of_nat)
  show "EventBuffer_WriteTo snap b' out =
       Some (Inr (n \<le> published_total (heap b') as',
                  out @ map AppendUint32 (take n (published_slots (heap b') as'))))"
    unfolding n_def by (rule EventBuffer_WriteTo_chain[OF assms(2,3)])
  show "length (take n (published_slots (heap b') as')) \<le> n" by simp
  show "length (take n (published_slots (heap b') as')) = n"
    if "n \<le> published_total (heap b') as'"
    using that published_slots_length[OF assms(3)] by simp
qed

text \<open>
  Two chunks with 2 and 1 published slots give a header of 12 bytes. By the time of
  \<open>WriteTo\<close> the second chunk has published a second slot: three slots are written.
\<close>

theorem EventBuffer_header_bounds_WriteTo_witness:
  "EventBuffer_PopulateHeader
     \<lparr>chunk_limit = 2, head = 0, current = 1,
      heap = [\<lparr>limit = 2, slots = [10, 11], size_c = 2, published_size = 2, next_c = Some 1\<rparr>,
              \<lparr>limit = 2, slots = [12, 13], size_c = 2, published_size = 1, next_c = None\<rparr>]\<rparr>
     \<lparr>part_type = 0, part_offset = 0, part_length = 0\<rparr>
    = Some (Inr \<lparr>part_type = 0x20002, part_offset = 0, part_length = 12\<rparr>) \<and>
   EventBuffer_WriteTo \<lparr>part_type = 0x20002, part_offset = 0, part_length = 12\<rparr>
     \<lparr>chunk_limit = 2, head = 0, current = 1,
      heap = [\<lparr>limit = 2, slots = [10, 11], size_c = 2, published_size = 2, next_c = Some 1\<rparr>,
              \<lparr>limit = 2, slots = [12, 13], size_c = 2, published_size = 2, next_c = None\<rparr>]\<rparr>
     []
    = Some (Inr (True, [AppendUint32 10, AppendUint32 11, AppendUint32 12]))"
proof -
  let ?b = "\<lparr>chunk_limit = 2, head = 0, current = 1,
      heap = [\<lparr>limit = 2, slots = [10, 11], size_c = 2, published_size = 2, next_c = Some 1\<rparr>,
              \<lparr>limit = 2, slots = [12, 13], size_c = 2, published_size = 1, next_c = None\<rparr>]\<rparr>"
  let ?b' = "\<lparr>chunk_limit = 2, head = 0, current = 1,
      heap = [\<lparr>limit = 2, slots = [10, 11], size_c = 2, published_size = 2, next_c = Some 1\<rparr>,
              \<lparr>limit = 2, slots = [12, 13], size_c = 2, published_size = 2, next_c = None\<rparr>]\<rparr>"
  have c: "chain (heap ?b) (Some (head ?b)) [0, 1]" by simp
  have c': "chain (heap ?b') (Some (head ?b')) [0, 1]" by simp
  have r': "readable (heap ?b') [0, 1]" by simp
  show ?thesis
    using EventBuffer_header_bounds_WriteTo[OF c c' r',
        of "\<lparr>part_type = 0, part_offset = 0, part_length = 0\<rparr>" "[]"]
    by simp
qed

text \<open>
  The claim as stated fails where 4 times the sum does not fit the 32-bit length field:
  a chain of one chunk with 2^30 + 1 published slots gets the length 4, not 2^32 + 4.
\<close>

theorem EventBuffer_PopulateHeader_length_wraps:
  "EventBuffer_PopulateHeader
     \<lparr>chunk_limit = 1073741825, head = 0, current = 0,
      heap = [\<lparr>limit = 1073741825, slots = replicate 1073741825 0, size_c = 1073741825,
               published_size = 1073741825, next_c = None\<rparr>]\<rparr>
     \<lparr>part_type = 0, part_offset = 0, part_length = 0\<rparr>
    = Some (Inr \<lparr>part_type = 0x20002, part_offset = 0, part_length = 4\<rparr>) \<and>
   published_total
     [\<lparr>limit = 1073741825, slots = replicate 1073741825 0, size_c = 1073741825,
       published_size = 1073741825, next_c = None\<rparr>] [0] = 1073741825 \<and>
   4 * (1073741825 :: nat) = 4294967300"
proof -
  let ?b = "\<lparr>chunk_limit = 1073741825, head = 0, current = 0,
      heap = [\<lparr>limit = 1073741825, slots = replicate 1073741825 (0 :: u32),
               size_c = 1073741825, published_size = 1073741825, next_c = None\<rparr>]\<rparr>"
  have c: "chain (heap ?b) (Some (head ?b)) [0]" by simp
  have w: "(4 * of_nat 1073741825 :: u32) = 4" by simp
  have t: "published_total (heap ?b) [0] = 1073741825" by simp
  have "EventBuffer_PopulateHeader ?b \<lparr>part_type = 0, part_offset = 0, part_length = 0\<rparr>
      = Some (Inr \<lparr>part_type = 0x20002, part_offset = 0, part_length = 4\<rparr>)"
    unfolding EventBuffer_PopulateHeader_chain[OF c] t w by simp
  then show ?thesis by simp
qed

section \<open>C3: the layout and the headers of StartChunk\<close>

text \<open>
  Claim C3, as amended. For every array of part headers, \<open>StartChunk\<close> stores into each
  part the offset that is the sum, modulo 2^32, of the aligned lengths of the parts before
  it, each aligned length being \<open>align4\<close> of the length modulo 2^32, so every offset is
  divisible by 4; the chunk length it writes is 24 + 12 * part_count plus the sum of the
  aligned lengths of all parts, modulo 2^32; and it emits the six words id, type, length,
  start_time, end_time, part_count, followed by type, offset, length of each part. When
  24 + 12 * part_count plus the sum of \<open>align4\<close> of the lengths is below 2^32, the
  offsets and the chunk length are the plain sums of the claim.
\<close>

theorem StartChunk_layout_and_header:
  assumes "StartChunk header parts out = (parts', out')"
  shows "length parts' = length parts \<and>
     (\<forall>i<length parts.
        parts' ! i = (parts ! i)\<lparr>part_offset := aligned_total (take i parts)\<rparr> \<and>
        unat (part_offset (parts' ! i)) mod 4 = 0) \<and>
     out' = out @ map AppendUint32 [chunk_id header, chunk_type header,
                     24 + 12 * of_nat (length parts) + aligned_total parts,
                     chunk_start_time header, chunk_end_time header, of_nat (length parts)]
                @ concat (map (\<lambda>p. map AppendUint32 [part_type p, part_offset p, part_length p])
                    parts') \<and>
     (24 + 12 * length parts + align4_total parts < 2 ^ 32 \<longrightarrow>
        unat (24 + 12 * of_nat (length parts) + aligned_total parts :: u32)
          = 24 + 12 * length parts + align4_total parts \<and>
        (\<forall>i<length parts. unat (part_offset (parts' ! i)) = align4_total (take i parts)))"
proof -
  have "parts' = fst (StartChunk header parts out)"
    and "out' = snd (StartChunk header parts out)"
    using assms by simp_all
  note p' = this(1)[unfolded StartChunk_eq fst_conv]
    and o' = this(2)[unfolded StartChunk_eq snd_conv]
  have len: "length parts' = length parts"
    unfolding p' by (rule StartChunk_layout_length)
  have nth: "parts' ! i = (parts ! i)\<lparr>part_offset := aligned_total (take i parts)\<rparr>"
    if "i < length parts" for i
    unfolding p' using StartChunk_layout_nth[OF that, of _ 0] by simp
  have al: "unat (part_offset (parts' ! i)) mod 4 = 0" if "i < length parts" for i
    using nth[OF that] dvd_aligned_total[of "take i parts"] by simp
  have nofl: "unat (24 + 12 * of_nat (length parts) + aligned_total parts :: u32)
          = 24 + 12 * length parts + align4_total parts \<and>
        (\<forall>i<length parts. unat (part_offset (parts' ! i)) = align4_total (take i parts))"
    if b: "24 + 12 * length parts + align4_total parts < 2 ^ 32"
  proof
    have s: "unat (aligned_total parts) = align4_total parts"
      using b by (simp add: unat_aligned_total)
    have c: "unat (24 + 12 * of_nat (length parts) :: u32) = 24 + 12 * length parts"
      using b by (simp add: unat_word_ariths unat_of_nat)
    show "unat (24 + 12 * of_nat (length parts) + aligned_total parts :: u32)
          = 24 + 12 * length parts + align4_total parts"
      using b s c by (simp add: unat_word_ariths(1))
    show "\<forall>i<length parts. unat (part_offset (parts' ! i)) = align4_total (take i parts)"
    proof (intro allI impI)
      fix i assume i: "i < length parts"
      have "align4_total (take i parts) < 2 ^ 32"
        using b align4_total_take_le[of i parts] by simp
      then show "unat (part_offset (parts' ! i)) = align4_total (take i parts)"
        using nth[OF i] by (simp add: unat_aligned_total)
    qed
  qed
  show ?thesis using len nth al o' nofl unfolding p'[symmetric] by blast
qed

text \<open>
  A string table part of 5 bytes and an event part of 12 bytes: the offsets are 0 and 8,
  and the chunk length is 24 + 24 + 8 + 12 = 68.
\<close>

theorem StartChunk_layout_and_header_witness:
  "StartChunk \<lparr>chunk_id = 1, chunk_type = 6, chunk_start_time = 100, chunk_end_time = 200\<rparr>
     [\<lparr>part_type = 0x30000, part_offset = 7, part_length = 5\<rparr>,
      \<lparr>part_type = 0x20002, part_offset = 9, part_length = 12\<rparr>] []
   = ([\<lparr>part_type = 0x30000, part_offset = 0, part_length = 5\<rparr>,
       \<lparr>part_type = 0x20002, part_offset = 8, part_length = 12\<rparr>],
      map AppendUint32 [1, 6, 68, 100, 200, 2, 0x30000, 0, 5, 0x20002, 8, 12]) \<and>
   unat (8 :: u32) mod 4 = 0 \<and>
   24 + 12 * 2 + align4 5 + align4 12 = (68 :: nat)"
proof -
  let ?parts = "[\<lparr>part_type = 0x30000, part_offset = 7, part_length = 5\<rparr>,
      \<lparr>part_type = 0x20002, part_offset = 9, part_length = 12 :: u32\<rparr>]"
  let ?parts' = "[\<lparr>part_type = 0x30000, part_offset = 0, part_length = 5\<rparr>,
       \<lparr>part_type = 0x20002, part_offset = 8, part_length = 12 :: u32\<rparr>]"
  have run: "StartChunk \<lparr>chunk_id = 1, chunk_type = 6, chunk_start_time = 100, chunk_end_time = 200\<rparr>
     ?parts [] = (?parts', map AppendUint32 [1, 6, 68, 100, 200, 2, 0x30000, 0, 5, 0x20002, 8, 12])"
    by (simp add: StartChunk_def Let_def aligned_length_of_def kAlignment_def
          kChunkHeaderSize_def kPartHeaderSize_def)
  have fits: "24 + 12 * length ?parts + align4_total ?parts < 2 ^ 32"
    by (simp add: align4_total_def align4_def)
  note t = StartChunk_layout_and_header[OF run]
  have one: "1 < length ?parts" by simp
  have "unat (part_offset (?parts' ! 1)) mod 4 = 0"
    using t[THEN conjunct2, THEN conjunct1, rule_format, OF one] by (rule conjunct2)
  moreover have "unat (24 + 12 * of_nat (length ?parts) + aligned_total ?parts :: u32)
          = 24 + 12 * length ?parts + align4_total ?parts"
    using t[THEN conjunct2, THEN conjunct2, THEN conjunct2, rule_format, OF fits]
    by (rule conjunct1)
  ultimately show ?thesis using run by (simp add: align4_total_def align4_def)
qed

text \<open>
  The claim as stated fails where the sums do not fit in 32 bits: with parts of
  2^32 - 1 and 5 bytes the aligned length of the first part wraps to 0, so the second
  offset is 0, not 2^32, and the chunk length is 24 + 24 + 0 + 8 = 56.
\<close>

theorem StartChunk_lengths_wrap:
  "StartChunk \<lparr>chunk_id = 1, chunk_type = 6, chunk_start_time = 100, chunk_end_time = 200\<rparr>
     [\<lparr>part_type = 0x30000, part_offset = 0, part_length = 0xFFFFFFFF\<rparr>,
      \<lparr>part_type = 0x20002, part_offset = 0, part_length = 5\<rparr>] []
   = ([\<lparr>part_type = 0x30000, part_offset = 0, part_length = 0xFFFFFFFF\<rparr>,
       \<lparr>part_type = 0x20002, part_offset = 0, part_length = 5\<rparr>],
      map AppendUint32 [1, 6, 56, 100, 200, 2, 0x30000, 0, 0xFFFFFFFF, 0x20002, 0, 5]) \<and>
   align4 (unat (0xFFFFFFFF :: u32)) = 4294967296 \<and>
   24 + 12 * 2 + align4 (unat (0xFFFFFFFF :: u32)) + align4 (unat (5 :: u32))
     = (4294967352 :: nat)"
  by (simp add: StartChunk_def Let_def aligned_length_of_def kAlignment_def
        kChunkHeaderSize_def kPartHeaderSize_def align4_def)

section \<open>C4: the old chunk is sealed before its successor is linked\<close>

text \<open>
  Claim C4. Let the writer's chunk be the tail of the list and let every chunk with a
  successor be sealed. \<open>ExpandAndAddSlots\<close> allocates one chunk at a fresh address and
  sets its size (the first two of the five states). In program order it then stores the
  size of the old current chunk into its \<open>published_size\<close>, its \<open>next\<close> still being
  null in the state after that store (the third state), and only then stores the address
  of the new chunk into its \<open>next\<close> (the fourth state); the last statement changes
  \<open>current_\<close> only. In each of the five states every chunk with a non-null \<open>next\<close> has
  \<open>published_size\<close> equal to \<open>size\<close>, and every chunk that had a successor before the
  call is unchanged in all its fields. In the final state the old current chunk is linked
  to the new chunk, which is a chunk of the store, and its \<open>published_size\<close> is its
  \<open>size\<close>, the size it had before the call; and no state of any later call of
  \<open>ExpandAndAddSlots\<close> differs from the final state in any field of that chunk. The final
  state satisfies the two assumptions again, so all this holds along any sequence of
  calls from the constructor on. The theorem is about the order of the stores in the
  program; the release and acquire orderings of the atomics are not part of the model.
\<close>

theorem ExpandAndAddSlots_seals_before_linking:
  assumes "tail_ok b" and "sealed_ok b"
  shows "length (ExpandAndAddSlots_steps count b) = 5 \<and>
     ExpandAndAddSlots count b = Inr (length (heap b), ExpandAndAddSlots_steps count b ! 4) \<and>
     heap (ExpandAndAddSlots_steps count b ! 2)
       = (heap (ExpandAndAddSlots_steps count b ! 1))[current b :=
           (heap (ExpandAndAddSlots_steps count b ! 1) ! current b)
             \<lparr>published_size := size_c (heap b ! current b)\<rparr>] \<and>
     next_c (heap (ExpandAndAddSlots_steps count b ! 2) ! current b) = None \<and>
     heap (ExpandAndAddSlots_steps count b ! 3)
       = (heap (ExpandAndAddSlots_steps count b ! 2))[current b :=
           (heap (ExpandAndAddSlots_steps count b ! 2) ! current b)
             \<lparr>next_c := Some (length (heap b))\<rparr>] \<and>
     published_size (heap (ExpandAndAddSlots_steps count b ! 3) ! current b)
       = size_c (heap (ExpandAndAddSlots_steps count b ! 3) ! current b) \<and>
     size_c (heap (ExpandAndAddSlots_steps count b ! 4) ! current b)
       = size_c (heap b ! current b) \<and>
     list_all sealed_ok (ExpandAndAddSlots_steps count b) \<and>
     list_all (untouched b) (ExpandAndAddSlots_steps count b) \<and>
     tail_ok (ExpandAndAddSlots_steps count b ! 4) \<and>
     sealed_ok (ExpandAndAddSlots_steps count b ! 4) \<and>
     heap (ExpandAndAddSlots_steps count b ! 0) = heap b @ [Chunk_new (chunk_limit b)] \<and>
     heap (ExpandAndAddSlots_steps count b ! 1)
       = heap b @ [(Chunk_new (chunk_limit b))\<lparr>size_c := count\<rparr>] \<and>
     ExpandAndAddSlots_steps count b ! 4
       = (ExpandAndAddSlots_steps count b ! 3)\<lparr>current := length (heap b)\<rparr> \<and>
     current (ExpandAndAddSlots_steps count b ! 3) = current b \<and>
     length (heap (ExpandAndAddSlots_steps count b ! 4)) = Suc (length (heap b)) \<and>
     next_c (heap (ExpandAndAddSlots_steps count b ! 4) ! current b) = Some (length (heap b)) \<and>
     published_size (heap (ExpandAndAddSlots_steps count b ! 4) ! current b)
       = size_c (heap (ExpandAndAddSlots_steps count b ! 4) ! current b) \<and>
     head (ExpandAndAddSlots_steps count b ! 4) = head b \<and>
     chunk_limit (ExpandAndAddSlots_steps count b ! 4) = chunk_limit b \<and>
     (\<forall>count'.
        list_all
          (\<lambda>s. heap s ! current b = heap (ExpandAndAddSlots_steps count b ! 4) ! current b)
          (ExpandAndAddSlots_steps count' (ExpandAndAddSlots_steps count b ! 4)))"
proof -
  from assms(1) have v: "current b < length (heap b)"
    and tl: "next_c (heap b ! current b) = None"
    by (simp_all add: tail_ok_def)
  note st = ExpandAndAddSlots_steps_eq[OF v, of count]
  let ?b5 = "b\<lparr>current := length (heap b),
        heap := (heap b)[current b :=
                    (heap b ! current b)\<lparr>published_size := size_c (heap b ! current b),
                                          next_c := Some (length (heap b))\<rparr>]
                  @ [(Chunk_new (chunk_limit b))\<lparr>size_c := count\<rparr>]\<rparr>"
  have b5: "ExpandAndAddSlots_steps count b ! 4 = ?b5" unfolding st by simp
  have old: "published_size (heap b ! a) = size_c (heap b ! a)"
    if "a < length (heap b)" "next_c (heap b ! a) \<noteq> None" for a
    using assms(2) that by (simp add: sealed_ok_nth)
  have ne: "a \<noteq> current b" if "next_c (heap b ! a) \<noteq> None" for a
    using that tl by auto
  have s: "list_all sealed_ok (ExpandAndAddSlots_steps count b)"
    unfolding st using v tl old
    by (auto simp: sealed_ok_nth nth_append nth_list_update Chunk_new_def less_Suc_eq)
  have u: "list_all (untouched b) (ExpandAndAddSlots_steps count b)"
    unfolding st using v ne
    by (auto simp: untouched_def nth_append nth_list_update)
  have f: "tail_ok (ExpandAndAddSlots_steps count b ! 4)"
    unfolding st by (simp add: tail_ok_def Chunk_new_def nth_append)
  have s4: "sealed_ok (ExpandAndAddSlots_steps count b ! 4)"
    using s unfolding st by simp
  have rest: "length (ExpandAndAddSlots_steps count b) = 5 \<and>
     ExpandAndAddSlots count b = Inr (length (heap b), ExpandAndAddSlots_steps count b ! 4) \<and>
     heap (ExpandAndAddSlots_steps count b ! 2)
       = (heap (ExpandAndAddSlots_steps count b ! 1))[current b :=
           (heap (ExpandAndAddSlots_steps count b ! 1) ! current b)
             \<lparr>published_size := size_c (heap b ! current b)\<rparr>] \<and>
     next_c (heap (ExpandAndAddSlots_steps count b ! 2) ! current b) = None \<and>
     heap (ExpandAndAddSlots_steps count b ! 3)
       = (heap (ExpandAndAddSlots_steps count b ! 2))[current b :=
           (heap (ExpandAndAddSlots_steps count b ! 2) ! current b)
             \<lparr>next_c := Some (length (heap b))\<rparr>] \<and>
     published_size (heap (ExpandAndAddSlots_steps count b ! 3) ! current b)
       = size_c (heap (ExpandAndAddSlots_steps count b ! 3) ! current b) \<and>
     size_c (heap (ExpandAndAddSlots_steps count b ! 4) ! current b)
       = size_c (heap b ! current b)"
    unfolding st ExpandAndAddSlots_eq[OF v] using v tl
    by (simp add: nth_append list_update_append)
  have more: "heap (ExpandAndAddSlots_steps count b ! 0) = heap b @ [Chunk_new (chunk_limit b)] \<and>
     heap (ExpandAndAddSlots_steps count b ! 1)
       = heap b @ [(Chunk_new (chunk_limit b))\<lparr>size_c := count\<rparr>] \<and>
     ExpandAndAddSlots_steps count b ! 4
       = (ExpandAndAddSlots_steps count b ! 3)\<lparr>current := length (heap b)\<rparr> \<and>
     current (ExpandAndAddSlots_steps count b ! 3) = current b \<and>
     length (heap (ExpandAndAddSlots_steps count b ! 4)) = Suc (length (heap b)) \<and>
     next_c (heap (ExpandAndAddSlots_steps count b ! 4) ! current b) = Some (length (heap b)) \<and>
     published_size (heap (ExpandAndAddSlots_steps count b ! 4) ! current b)
       = size_c (heap (ExpandAndAddSlots_steps count b ! 4) ! current b) \<and>
     head (ExpandAndAddSlots_steps count b ! 4) = head b \<and>
     chunk_limit (ExpandAndAddSlots_steps count b ! 4) = chunk_limit b"
    unfolding st using v by (simp add: nth_append)
  have later: "\<forall>count'.
        list_all
          (\<lambda>s. heap s ! current b = heap (ExpandAndAddSlots_steps count b ! 4) ! current b)
          (ExpandAndAddSlots_steps count' (ExpandAndAddSlots_steps count b ! 4))"
  proof
    fix count'
    have v5: "current ?b5 < length (heap ?b5)" by simp
    show "list_all
          (\<lambda>s. heap s ! current b = heap (ExpandAndAddSlots_steps count b ! 4) ! current b)
          (ExpandAndAddSlots_steps count' (ExpandAndAddSlots_steps count b ! 4))"
      unfolding b5 ExpandAndAddSlots_steps_eq[OF v5, of count'] using v
      by (simp add: nth_append nth_list_update)
  qed
  from rest s u f s4 more later show ?thesis by (elim conjE) (intro conjI)
qed

text \<open>
  From the constructor (chunks of 8 slots) a first call seals chunk 0 and links it to
  chunk 1, and a second call seals chunk 1, leaving chunk 0 as it was.
\<close>

theorem ExpandAndAddSlots_seals_before_linking_witness:
  "tail_ok (EventBuffer_new 32 32) \<and> sealed_ok (EventBuffer_new 32 32) \<and>
   next_c (heap (ExpandAndAddSlots_steps 3 (EventBuffer_new 32 32) ! 2) ! 0) = None \<and>
   next_c (heap (ExpandAndAddSlots_steps 3 (EventBuffer_new 32 32) ! 4) ! 0) = Some 1 \<and>
   length (heap (ExpandAndAddSlots_steps 3 (EventBuffer_new 32 32) ! 4)) = 2 \<and>
   list_all sealed_ok (ExpandAndAddSlots_steps 3 (EventBuffer_new 32 32)) \<and>
   list_all sealed_ok
     (ExpandAndAddSlots_steps 5 (ExpandAndAddSlots_steps 3 (EventBuffer_new 32 32) ! 4)) \<and>
   list_all (untouched (ExpandAndAddSlots_steps 3 (EventBuffer_new 32 32) ! 4))
     (ExpandAndAddSlots_steps 5 (ExpandAndAddSlots_steps 3 (EventBuffer_new 32 32) ! 4))"
proof -
  let ?b0 = "EventBuffer_new 32 32"
  let ?b1 = "ExpandAndAddSlots_steps 3 ?b0 ! 4"
  have t0: "tail_ok ?b0" and s0: "sealed_ok ?b0"
    using EventBuffer_new_invariants[of 32 32] by simp_all
  note a = ExpandAndAddSlots_seals_before_linking[OF t0 s0, of 3]
  from a have t1: "tail_ok ?b1" by (elim conjE)
  from a have s1: "sealed_ok ?b1" by (elim conjE)
  note b = ExpandAndAddSlots_seals_before_linking[OF t1 s1, of 5]
  have cur: "current ?b0 = 0" and len: "length (heap ?b0) = 1"
    by (simp_all add: EventBuffer_new_def Let_def)
  from a have n2: "next_c (heap (ExpandAndAddSlots_steps 3 ?b0 ! 2) ! current ?b0) = None"
    by (elim conjE)
  from a have n4: "next_c (heap ?b1 ! current ?b0) = Some (length (heap ?b0))"
    by (elim conjE)
  from a have l4: "length (heap ?b1) = Suc (length (heap ?b0))" by (elim conjE)
  from a have a8: "list_all sealed_ok (ExpandAndAddSlots_steps 3 ?b0)" by (elim conjE)
  from b have b8: "list_all sealed_ok (ExpandAndAddSlots_steps 5 ?b1)" by (elim conjE)
  from b have b9: "list_all (untouched ?b1) (ExpandAndAddSlots_steps 5 ?b1)" by (elim conjE)
  have two: "Suc 1 = (2::nat)" by simp
  from t0 s0 n2[unfolded cur] n4[unfolded cur len] l4[unfolded len two] a8 b8 b9
  show ?thesis by (intro conjI)
qed

section \<open>C5: interning is deterministic, and injective and dense within the range of int\<close>

text \<open>
  Claim C5, as amended. Take any sequence \<open>ss\<close> of calls of \<open>GetStringId\<close> on a table
  that has just been cleared (a new table is a cleared one), and let N be the number of
  distinct strings of \<open>ss\<close>. The vector \<open>strings_\<close> then holds the N strings in the order
  of their first call, and the id returned for a string is its position there, its
  insertion index, narrowed to an \<open>int\<close> of 32 bits. Calls with the same string return
  the same id, and asking again for any of the strings afterwards returns its id and
  leaves the table as it is. When N is at most 2^32, distinct strings have distinct ids.
  When N is at most 2^31, the ids are the insertion indices themselves, and the set of
  the ids returned is exactly 0, ..., N - 1.
\<close>

theorem GetStringId_deterministic_dense:
  assumes "GetStringIds ss (Clear t0) = (ids, t)"
  shows "length ids = length ss \<and>
     strings t = rev (remdups (rev ss)) \<and>
     length (strings t) = card (set ss) \<and>
     (\<forall>i<length ss. \<exists>n<card (set ss).
        strings t ! n = ss ! i \<and> ids ! i = of_nat n \<and>
        GetStringId (ss ! i) t = (ids ! i, t)) \<and>
     (\<forall>i<length ss. \<forall>j<length ss. ss ! i = ss ! j \<longrightarrow> ids ! i = ids ! j) \<and>
     (card (set ss) \<le> 2 ^ 32 \<longrightarrow>
        (\<forall>i<length ss. \<forall>j<length ss. (ids ! i = ids ! j) = (ss ! i = ss ! j))) \<and>
     (card (set ss) \<le> 2 ^ 31 \<longrightarrow>
        sint ` set ids = int ` {0..<card (set ss)} \<and>
        (\<forall>i<length ss. 0 \<le> sint (ids ! i) \<and> strings t ! nat (sint (ids ! i)) = ss ! i))"
proof -
  note h = GetStringIds_cleared[OF assms]
  from h have inv: "table_inv t" and len: "length ids = length ss"
    and st: "strings t = rev (remdups (rev ss))"
    by blast+
  have dist: "distinct (strings t)" and sets: "set (strings t) = set ss"
    unfolding st by simp_all
  have card: "length (strings t) = card (set ss)"
    using distinct_card[OF dist] sets by simp
  have pos: "\<exists>n<card (set ss). strings t ! n = ss ! k \<and> ids ! k = of_nat n"
    if "k < length ss" for k
    using h that unfolding card by blast
  have uniq: "m = n"
    if "m < card (set ss)" "n < card (set ss)" "strings t ! m = strings t ! n" for m n
    using distinct_nth_inj[OF dist] that unfolding card by blast
  have again: "\<exists>n<card (set ss). strings t ! n = ss ! i \<and> ids ! i = of_nat n \<and>
        GetStringId (ss ! i) t = (ids ! i, t)" if "i < length ss" for i
  proof -
    from pos[OF that] obtain n where n: "n < card (set ss)" "strings t ! n = ss ! i"
      "ids ! i = of_nat n" by blast
    have "GetStringId (ss ! i) t = (of_nat n, t)"
      using GetStringId_known[OF inv _ n(2)] n(1) unfolding card by blast
    then show ?thesis using n by auto
  qed
  have same: "ids ! i = ids ! j" if "i < length ss" "j < length ss" "ss ! i = ss ! j" for i j
  proof -
    from pos[OF that(1)] obtain m where m: "m < card (set ss)" "strings t ! m = ss ! i"
      "ids ! i = of_nat m" by blast
    from pos[OF that(2)] obtain n where n: "n < card (set ss)" "strings t ! n = ss ! j"
      "ids ! j = of_nat n" by blast
    have "m = n" using uniq[OF m(1) n(1)] m(2) n(2) that(3) by simp
    then show ?thesis using m(3) n(3) by simp
  qed
  have inj: "(ids ! i = ids ! j) = (ss ! i = ss ! j)"
    if b: "card (set ss) \<le> 2 ^ 32" and i: "i < length ss" and j: "j < length ss" for i j
  proof
    assume e: "ids ! i = ids ! j"
    from pos[OF i] obtain m where m: "m < card (set ss)" "strings t ! m = ss ! i"
      "ids ! i = of_nat m" by blast
    from pos[OF j] obtain n where n: "n < card (set ss)" "strings t ! n = ss ! j"
      "ids ! j = of_nat n" by blast
    have "m < 2 ^ 32" "n < 2 ^ 32" using m(1) n(1) b by simp_all
    moreover have "(of_nat m :: int32) = of_nat n" using e m(3) n(3) by simp
    ultimately have "m = n" by (rule of_nat_int32_inj)
    then show "ss ! i = ss ! j" using m(2) n(2) by simp
  next
    assume "ss ! i = ss ! j"
    then show "ids ! i = ids ! j" by (rule same[OF i j])
  qed
  have small: "sint ` set ids = int ` {0..<card (set ss)} \<and>
        (\<forall>i<length ss. 0 \<le> sint (ids ! i) \<and> strings t ! nat (sint (ids ! i)) = ss ! i)"
    if b: "card (set ss) \<le> 2 ^ 31"
  proof
    have val: "\<exists>n<card (set ss). strings t ! n = ss ! k \<and> sint (ids ! k) = int n"
      if "k < length ss" for k
    proof -
      from pos[OF that] obtain n where n: "n < card (set ss)" "strings t ! n = ss ! k"
        "ids ! k = of_nat n" by blast
      have "n < 2 ^ 31" using n(1) b by simp
      then have "sint (ids ! k) = int n" unfolding n(3) by (rule sint_of_nat_int32)
      then show ?thesis using n by blast
    qed
    show "sint ` set ids = int ` {0..<card (set ss)}"
    proof (intro set_eqI iffI)
      fix x assume "x \<in> sint ` set ids"
      then obtain k where k: "k < length ss" and x: "x = sint (ids ! k)"
        using len by (auto simp: in_set_conv_nth)
      from val[OF k] obtain n where "n < card (set ss)" "sint (ids ! k) = int n" by blast
      then show "x \<in> int ` {0..<card (set ss)}" unfolding x by simp
    next
      fix x assume "x \<in> int ` {0..<card (set ss)}"
      then obtain n where n: "n < card (set ss)" and x: "x = int n" by auto
      then have "strings t ! n \<in> set ss" using sets card nth_mem by metis
      then obtain k where k: "k < length ss" and sk: "ss ! k = strings t ! n"
        by (auto simp: in_set_conv_nth)
      from val[OF k] obtain m where m: "m < card (set ss)" "strings t ! m = ss ! k"
        "sint (ids ! k) = int m" by blast
      have "m = n" using uniq[OF m(1) n] m(2) sk by simp
      then have "x = sint (ids ! k)" using m(3) x by simp
      moreover have "ids ! k \<in> set ids" using k len by simp
      ultimately show "x \<in> sint ` set ids" by blast
    qed
    show "\<forall>i<length ss. 0 \<le> sint (ids ! i) \<and> strings t ! nat (sint (ids ! i)) = ss ! i"
    proof (intro allI impI)
      fix i assume "i < length ss"
      from val[OF this] obtain n where "strings t ! n = ss ! i" "sint (ids ! i) = int n"
        by blast
      then show "0 \<le> sint (ids ! i) \<and> strings t ! nat (sint (ids ! i)) = ss ! i" by simp
    qed
  qed
  have again': "\<forall>i<length ss. \<exists>n<card (set ss).
        strings t ! n = ss ! i \<and> ids ! i = of_nat n \<and>
        GetStringId (ss ! i) t = (ids ! i, t)"
    using again by blast
  have same': "\<forall>i<length ss. \<forall>j<length ss. ss ! i = ss ! j \<longrightarrow> ids ! i = ids ! j"
    using same by blast
  have inj': "card (set ss) \<le> 2 ^ 32 \<longrightarrow>
        (\<forall>i<length ss. \<forall>j<length ss. (ids ! i = ids ! j) = (ss ! i = ss ! j))"
    using inj by blast
  have small': "card (set ss) \<le> 2 ^ 31 \<longrightarrow>
        sint ` set ids = int ` {0..<card (set ss)} \<and>
        (\<forall>i<length ss. 0 \<le> sint (ids ! i) \<and> strings t ! nat (sint (ids ! i)) = ss ! i)"
    using small by blast
  from len st card again' same' inj' small' show ?thesis by (intro conjI)
qed

text \<open>
  The calls a, b, a, c on a cleared table return 0, 1, 0, 2; the vector is a, b, c; the
  ids of a and b differ; and asking for b again returns 1.
\<close>

theorem GetStringId_deterministic_dense_witness:
  "fst (GetStringIds [''a'', ''b'', ''a'', ''c''] (Clear StringTable_new)) = [0, 1, 0, 2] \<and>
   strings (snd (GetStringIds [''a'', ''b'', ''a'', ''c''] (Clear StringTable_new)))
     = [''a'', ''b'', ''c''] \<and>
   sint ` set [0, 1, 0, 2 :: int32] = int ` {0..<card (set [''a'', ''b'', ''a'', ''c''])} \<and>
   (([0, 1, 0, 2 :: int32] ! 0 = [0, 1, 0, 2] ! 1)
      = ([''a'', ''b'', ''a'', ''c''] ! 0 = [''a'', ''b'', ''a'', ''c''] ! 1)) \<and>
   fst (GetStringId ''b'' (snd (GetStringIds [''a'', ''b'', ''a'', ''c''] (Clear StringTable_new))))
     = 1"
proof -
  let ?ss = "[''a'', ''b'', ''a'', ''c'']"
  let ?r = "GetStringIds ?ss (Clear StringTable_new)"
  have ids: "fst ?r = [0, 1, 0, 2]"
    by (simp add: GetStringId_def Clear_def StringTable_new_def Let_def)
  have st: "strings (snd ?r) = [''a'', ''b'', ''c'']"
    by (simp add: GetStringId_def Clear_def StringTable_new_def Let_def)
  have run: "?r = ([0, 1, 0, 2], snd ?r)"
    using ids by (metis prod.collapse)
  have few: "card (set ?ss) \<le> 2 ^ 31" using card_length[of ?ss] by simp
  have some: "card (set ?ss) \<le> 2 ^ 32" using card_length[of ?ss] by simp
  have zero: "0 < length ?ss" and one: "1 < length ?ss" by simp_all
  note t = GetStringId_deterministic_dense[OF run]
  from t have "card (set ?ss) \<le> 2 ^ 31 \<longrightarrow>
        sint ` set [0, 1, 0, 2 :: int32] = int ` {0..<card (set ?ss)} \<and>
        (\<forall>i<length ?ss. 0 \<le> sint ([0, 1, 0, 2 :: int32] ! i) \<and>
           strings (snd ?r) ! nat (sint ([0, 1, 0, 2 :: int32] ! i)) = ?ss ! i)"
    by (elim conjE)
  from this[rule_format, OF few]
  have dense: "sint ` set [0, 1, 0, 2 :: int32] = int ` {0..<card (set ?ss)}"
    by (rule conjunct1)
  from t have "card (set ?ss) \<le> 2 ^ 32 \<longrightarrow>
        (\<forall>i<length ?ss. \<forall>j<length ?ss.
           ([0, 1, 0, 2 :: int32] ! i = [0, 1, 0, 2] ! j) = (?ss ! i = ?ss ! j))"
    by (elim conjE)
  from this[rule_format, OF some zero one]
  have inj: "([0, 1, 0, 2 :: int32] ! 0 = [0, 1, 0, 2] ! 1) = (?ss ! 0 = ?ss ! 1)" .
  from t have "\<forall>i<length ?ss. \<exists>n<card (set ?ss).
        strings (snd ?r) ! n = ?ss ! i \<and> [0, 1, 0, 2 :: int32] ! i = of_nat n \<and>
        GetStringId (?ss ! i) (snd ?r) = ([0, 1, 0, 2] ! i, snd ?r)"
    by (elim conjE)
  from this[rule_format, OF one]
  have "GetStringId (?ss ! 1) (snd ?r) = ([0, 1, 0, 2] ! 1, snd ?r)" by blast
  then have again: "fst (GetStringId ''b'' (snd ?r)) = 1" by simp
  from ids st dense inj again show ?thesis by (intro conjI)
qed

text \<open>
  The claim as stated fails beyond the range of \<open>int\<close>: interning 2^31 + 1 pairwise
  distinct strings, of 0, 1, ..., 2^31 letters, the last call returns the id -2^31, which
  is not among 0, ..., 2^31.
\<close>

theorem GetStringId_id_out_of_range:
  "sint (fst (GetStringIds (map unary [0..<2147483649]) (Clear StringTable_new)) ! 2147483648)
     = - 2147483648 \<and>
   distinct (map unary [0..<2147483649])"
proof -
  have lt: "(2147483648 :: nat) < 2147483649" by simp
  note e = GetStringIds_unary[OF lt, of StringTable_new]
  have s: "sint (of_nat 2147483648 :: int32) = - 2147483648" by simp
  have "sint (fst (GetStringIds (map unary [0..<2147483649]) (Clear StringTable_new))
          ! 2147483648) = - 2147483648"
    unfolding e by (rule s)
  then show ?thesis using distinct_unary[of 2147483649] by (rule conjI)
qed

section \<open>C6: the header and the payload of the string table\<close>

text \<open>
  Claim C6, as amended. For every table state, \<open>StringTable::PopulateHeader\<close> sets type
  0x30000, offset 0, and as length the sum over the interned strings of len(s) + 1,
  narrowed to 32 bits. When that sum is below 2^32, the length is the sum itself, and
  \<open>StringTable::WriteTo\<close> with that header on the unmodified table appends the strings
  in id order, each followed by one zero byte, which is exactly length bytes, then calls
  \<open>Align\<close> and returns true.
\<close>

theorem StringTable_header_and_WriteTo:
  "part_type (StringTable_PopulateHeader t header) = 0x30000 \<and>
   part_offset (StringTable_PopulateHeader t header) = 0 \<and>
   part_length (StringTable_PopulateHeader t header) = of_nat (serialized_size (strings t)) \<and>
   (serialized_size (strings t) < 2 ^ 32 \<longrightarrow>
      unat (part_length (StringTable_PopulateHeader t header)) = serialized_size (strings t) \<and>
      StringTable_WriteTo (StringTable_PopulateHeader t header) t out
        = (True, out @ serialized_entries (strings t) @ [Align]) \<and>
      appended_bytes (out @ serialized_entries (strings t) @ [Align])
        = appended_bytes out + unat (part_length (StringTable_PopulateHeader t header)))"
proof -
  let ?P = "StringTable_PopulateHeader t header"
  have len: "part_length ?P = of_nat (serialized_size (strings t))"
    by (simp add: StringTable_PopulateHeader_def raw_length_of_eq)
  have fits: "unat (part_length ?P) = serialized_size (strings t) \<and>
      StringTable_WriteTo ?P t out = (True, out @ serialized_entries (strings t) @ [Align]) \<and>
      appended_bytes (out @ serialized_entries (strings t) @ [Align])
        = appended_bytes out + unat (part_length ?P)"
    if b: "serialized_size (strings t) < 2 ^ 32"
  proof -
    have u: "unat (part_length ?P) = serialized_size (strings t)"
      unfolding len using b by (simp add: unat_of_nat)
    have "0 + serialized_size (strings t) \<le> unat (part_length ?P)" using u by simp
    from StringTable_WriteTo_loop_all[OF this, of out]
    have "StringTable_WriteTo ?P t out = (True, out @ serialized_entries (strings t) @ [Align])"
      by (simp add: StringTable_WriteTo_def)
    then show ?thesis
      using u appended_bytes_serialized_entries[of "strings t"]
      by (simp add: appended_bytes_def)
  qed
  show ?thesis
    using len fits by (simp add: StringTable_PopulateHeader_def)
qed

text \<open>
  The table after interning ab and c serializes to 5 bytes: the header says 5, and the
  two entries are written, then \<open>Align\<close>.
\<close>

theorem StringTable_header_and_WriteTo_witness:
  "StringTable_PopulateHeader (snd (GetStringIds [''ab'', ''c''] StringTable_new))
     \<lparr>part_type = 0, part_offset = 9, part_length = 0\<rparr>
    = \<lparr>part_type = 0x30000, part_offset = 0, part_length = 5\<rparr> \<and>
   StringTable_WriteTo \<lparr>part_type = 0x30000, part_offset = 0, part_length = 5\<rparr>
     (snd (GetStringIds [''ab'', ''c''] StringTable_new)) []
    = (True, [Append [CHR ''a'', CHR ''b'', CHR 0x00], Append [CHR ''c'', CHR 0x00], Align])"
proof -
  let ?t = "snd (GetStringIds [''ab'', ''c''] StringTable_new)"
  let ?h = "\<lparr>part_type = 0, part_offset = 9, part_length = 0 :: u32\<rparr>"
  have st: "strings ?t = [''ab'', ''c'']"
    by (simp add: GetStringId_def StringTable_new_def Let_def)
  have hd: "StringTable_PopulateHeader ?t ?h
      = \<lparr>part_type = 0x30000, part_offset = 0, part_length = 5\<rparr>"
    unfolding StringTable_PopulateHeader_def st by simp
  have fits: "serialized_size (strings ?t) < 2 ^ 32" unfolding st by simp
  have "StringTable_WriteTo (StringTable_PopulateHeader ?t ?h) ?t []
        = (True, [] @ serialized_entries (strings ?t) @ [Align])"
    using StringTable_header_and_WriteTo[of ?t ?h "[]", THEN conjunct2, THEN conjunct2,
        THEN conjunct2, rule_format, OF fits]
    by (elim conjE)
  then show ?thesis unfolding hd st by (simp add: serialized_entries_def)
qed

text \<open>
  The claim as stated fails where the sum does not fit the 32-bit length field: one
  interned string of 2^32 bytes serializes to 2^32 + 1 bytes, the header says 1, and
  \<open>WriteTo\<close> with that header writes nothing and returns false.
\<close>

theorem StringTable_WriteTo_truncated_length:
  "part_length (StringTable_PopulateHeader
       (snd (GetStringId (replicate 4294967296 (CHR ''a'')) StringTable_new))
       \<lparr>part_type = 0, part_offset = 0, part_length = 0\<rparr>) = 1 \<and>
   StringTable_WriteTo
     (StringTable_PopulateHeader
       (snd (GetStringId (replicate 4294967296 (CHR ''a'')) StringTable_new))
       \<lparr>part_type = 0, part_offset = 0, part_length = 0\<rparr>)
     (snd (GetStringId (replicate 4294967296 (CHR ''a'')) StringTable_new)) []
    = (False, [])"
proof -
  let ?s = "replicate 4294967296 (CHR ''a'')"
  let ?t = "snd (GetStringId ?s StringTable_new)"
  have st: "strings ?t = [?s]"
    by (simp add: GetStringId_def StringTable_new_def Let_def)
  have w: "(of_nat (4294967296 + 1) :: u32) = 1" by simp
  have len: "part_length (StringTable_PopulateHeader ?t
       \<lparr>part_type = 0, part_offset = 0, part_length = 0\<rparr>) = 1"
    unfolding StringTable_PopulateHeader_def st using w by simp
  show ?thesis
    unfolding StringTable_WriteTo_def len st by (simp add: len)
qed

section \<open>C7: when EventBuffer::WriteTo reports a size mismatch\<close>

text \<open>
  Claim C7. On a chunk chain, \<open>EventBuffer::WriteTo\<close> returns false exactly when the
  chain is exhausted before length/4 slots have been produced, that is when the chain
  publishes fewer than length/4 slots in all. It has then written every published slot of
  the chain, which is fewer slots than the header declares.
\<close>

theorem EventBuffer_WriteTo_size_mismatch:
  assumes "chain (heap b) (Some (head b)) as" and "readable (heap b) as"
  shows "EventBuffer_WriteTo header b out =
       Some (Inr (\<not> published_total (heap b) as < unat (part_length header) div 4,
                  out @ map AppendUint32
                    (take (unat (part_length header) div 4) (published_slots (heap b) as)))) \<and>
     (published_total (heap b) as < unat (part_length header) div 4 \<longrightarrow>
        take (unat (part_length header) div 4) (published_slots (heap b) as)
          = published_slots (heap b) as \<and>
        length (published_slots (heap b) as) < unat (part_length header) div 4)"
  using EventBuffer_WriteTo_chain[OF assms, of header out] published_slots_length[OF assms(2)]
  by (simp add: not_less)

text \<open>
  The chain publishes 3 slots. A header of 16 bytes declares 4: the three slots are
  written and the result is false. A header of 12 bytes is served.
\<close>

theorem EventBuffer_WriteTo_size_mismatch_witness:
  "EventBuffer_WriteTo \<lparr>part_type = 0x20002, part_offset = 0, part_length = 16\<rparr>
     \<lparr>chunk_limit = 2, head = 0, current = 1,
      heap = [\<lparr>limit = 2, slots = [10, 11], size_c = 2, published_size = 2, next_c = Some 1\<rparr>,
              \<lparr>limit = 2, slots = [12, 13], size_c = 2, published_size = 1, next_c = None\<rparr>]\<rparr>
     []
    = Some (Inr (False, [AppendUint32 10, AppendUint32 11, AppendUint32 12])) \<and>
   EventBuffer_WriteTo \<lparr>part_type = 0x20002, part_offset = 0, part_length = 12\<rparr>
     \<lparr>chunk_limit = 2, head = 0, current = 1,
      heap = [\<lparr>limit = 2, slots = [10, 11], size_c = 2, published_size = 2, next_c = Some 1\<rparr>,
              \<lparr>limit = 2, slots = [12, 13], size_c = 2, published_size = 1, next_c = None\<rparr>]\<rparr>
     []
    = Some (Inr (True, [AppendUint32 10, AppendUint32 11, AppendUint32 12]))"
proof -
  let ?b = "\<lparr>chunk_limit = 2, head = 0, current = 1,
      heap = [\<lparr>limit = 2, slots = [10, 11], size_c = 2, published_size = 2, next_c = Some 1\<rparr>,
              \<lparr>limit = 2, slots = [12, 13], size_c = 2, published_size = 1, next_c = None\<rparr>]\<rparr>"
  have c: "chain (heap ?b) (Some (head ?b)) [0, 1]" by simp
  have r: "readable (heap ?b) [0, 1]" by simp
  show ?thesis
    using EventBuffer_WriteTo_size_mismatch[OF c r,
        of "\<lparr>part_type = 0x20002, part_offset = 0, part_length = 16\<rparr>" "[]"]
      EventBuffer_WriteTo_size_mismatch[OF c r,
        of "\<lparr>part_type = 0x20002, part_offset = 0, part_length = 12\<rparr>" "[]"]
    by simp
qed

section \<open>C8: a declared length of zero\<close>

text \<open>
  Claim C8 says that \<open>StringTable::WriteTo\<close> returns false exactly when the declared
  length lies strictly inside an entry, below the serialized size of the table and equal
  to the serialized size of no prefix of the entries. The loop looks for the clean end
  only after it has written an entry, so this holds for the non-empty prefixes only
  (\<open>StringTable_WriteTo_false_iff\<close>). With a declared length of 0, the size of the empty
  prefix, and the table holding the one string a, \<open>WriteTo\<close> returns false, has written
  nothing and has not called \<open>Align\<close>; on the empty table the same header is served.
\<close>

theorem StringTable_WriteTo_zero_length:
  "StringTable_WriteTo \<lparr>part_type = 0x30000, part_offset = 0, part_length = 0\<rparr>
     (snd (GetStringId ''a'' StringTable_new)) [] = (False, []) \<and>
   serialized_size (take 0 (strings (snd (GetStringId ''a'' StringTable_new)))) = 0 \<and>
   StringTable_WriteTo \<lparr>part_type = 0x30000, part_offset = 0, part_length = 0\<rparr>
     StringTable_new [] = (True, [Align])"
  by (simp add: StringTable_WriteTo_def GetStringId_def StringTable_new_def Let_def)

section \<open>C9: the constructor of the event buffer\<close>

text \<open>
  Claim C9. For every \<open>chunk_size_bytes\<close>, the constructor raises the argument to
  \<open>kMinimumChunkSizeBytes\<close> when it is smaller, sets \<open>chunk_limit\<close> to the resulting
  byte count divided by 4, and leaves \<open>head\<close> and \<open>current\<close> pointing at the one
  chunk of the buffer, freshly made with that capacity: empty, nothing published, no
  successor.
\<close>

theorem EventBuffer_new_chunk_limit:
  "chunk_limit (EventBuffer_new kMinimumChunkSizeBytes chunk_size_bytes)
     = max kMinimumChunkSizeBytes chunk_size_bytes div 4 \<and>
   (chunk_size_bytes < kMinimumChunkSizeBytes \<longrightarrow>
      chunk_limit (EventBuffer_new kMinimumChunkSizeBytes chunk_size_bytes)
        = kMinimumChunkSizeBytes div 4) \<and>
   (kMinimumChunkSizeBytes \<le> chunk_size_bytes \<longrightarrow>
      chunk_limit (EventBuffer_new kMinimumChunkSizeBytes chunk_size_bytes)
        = chunk_size_bytes div 4) \<and>
   head (EventBuffer_new kMinimumChunkSizeBytes chunk_size_bytes)
     = current (EventBuffer_new kMinimumChunkSizeBytes chunk_size_bytes) \<and>
   heap (EventBuffer_new kMinimumChunkSizeBytes chunk_size_bytes)
     = [Chunk_new (max kMinimumChunkSizeBytes chunk_size_bytes div 4)] \<and>
   head (EventBuffer_new kMinimumChunkSizeBytes chunk_size_bytes) = 0 \<and>
   length (slots (Chunk_new (max kMinimumChunkSizeBytes chunk_size_bytes div 4)))
     = max kMinimumChunkSizeBytes chunk_size_bytes div 4 \<and>
   limit (Chunk_new (max kMinimumChunkSizeBytes chunk_size_bytes div 4))
     = max kMinimumChunkSizeBytes chunk_size_bytes div 4 \<and>
   size_c (Chunk_new (max kMinimumChunkSizeBytes chunk_size_bytes div 4)) = 0 \<and>
   published_size (Chunk_new (max kMinimumChunkSizeBytes chunk_size_bytes div 4)) = 0 \<and>
   next_c (Chunk_new (max kMinimumChunkSizeBytes chunk_size_bytes div 4)) = None"
  by (simp add: EventBuffer_new_def Chunk_new_def Let_def max_def)

text \<open>
  With a minimum of 1024 bytes, a request for 100 bytes gives chunks of 256 slots, and a
  request for 4096 bytes chunks of 1024 slots.
\<close>

theorem EventBuffer_new_chunk_limit_witness:
  "chunk_limit (EventBuffer_new 1024 100) = 256 \<and>
   chunk_limit (EventBuffer_new 1024 4096) = 1024 \<and>
   head (EventBuffer_new 1024 100) = current (EventBuffer_new 1024 100) \<and>
   length (slots (heap (EventBuffer_new 1024 100) ! head (EventBuffer_new 1024 100))) = 256"
proof -
  have a: "(100::nat) < 1024" and b: "(1024::nat) \<le> 4096" by simp_all
  note t1 = EventBuffer_new_chunk_limit[of 1024 100]
  note t2 = EventBuffer_new_chunk_limit[of 1024 4096]
  have "chunk_limit (EventBuffer_new 1024 100) = 1024 div 4"
    using t1[THEN conjunct2, THEN conjunct1, rule_format, OF a] .
  moreover have "chunk_limit (EventBuffer_new 1024 4096) = 4096 div 4"
    using t2[THEN conjunct2, THEN conjunct2, THEN conjunct1, rule_format, OF b] .
  ultimately show ?thesis
    by (simp add: EventBuffer_new_def Chunk_new_def Let_def)
qed

section \<open>C10: what ExpandAndAddSlots leaves unchanged\<close>

text \<open>
  Claim C10. \<open>ExpandAndAddSlots\<close> writes, in the chunks that exist when it is called,
  only the fields \<open>published_size\<close> and \<open>next\<close> of the chunk that is current then: the
  slot array, the size and the capacity of that chunk are unchanged, and every other
  existing chunk, so every chunk earlier in the list, is unchanged altogether. The head
  and the chunk limit of the buffer are unchanged as well, and the store grows by the one
  new chunk.
\<close>

theorem ExpandAndAddSlots_frame:
  assumes "current b < length (heap b)"
  shows "\<exists>b'. ExpandAndAddSlots count b = Inr (length (heap b), b') \<and>
     heap b' ! current b =
       (heap b ! current b)\<lparr>published_size := size_c (heap b ! current b),
                             next_c := Some (length (heap b))\<rparr> \<and>
     slots (heap b' ! current b) = slots (heap b ! current b) \<and>
     size_c (heap b' ! current b) = size_c (heap b ! current b) \<and>
     limit (heap b' ! current b) = limit (heap b ! current b) \<and>
     (\<forall>a<length (heap b). a \<noteq> current b \<longrightarrow> heap b' ! a = heap b ! a) \<and>
     length (heap b') = Suc (length (heap b)) \<and>
     head b' = head b \<and> chunk_limit b' = chunk_limit b"
  using assms
  by (simp add: ExpandAndAddSlots_eq[OF assms] nth_append)

text \<open>
  A buffer of two chunks with the second current: after the call the first chunk is as it
  was, and the second has only its published size and its successor changed.
\<close>

theorem ExpandAndAddSlots_frame_witness:
  "ExpandAndAddSlots 1
     \<lparr>chunk_limit = 2, head = 0, current = 1,
      heap = [\<lparr>limit = 2, slots = [10, 11], size_c = 2, published_size = 2, next_c = Some 1\<rparr>,
              \<lparr>limit = 2, slots = [12, 13], size_c = 2, published_size = 1, next_c = None\<rparr>]\<rparr>
    = Inr (2,
     \<lparr>chunk_limit = 2, head = 0, current = 2,
      heap = [\<lparr>limit = 2, slots = [10, 11], size_c = 2, published_size = 2, next_c = Some 1\<rparr>,
              \<lparr>limit = 2, slots = [12, 13], size_c = 2, published_size = 2, next_c = Some 2\<rparr>,
              \<lparr>limit = 2, slots = [0, 0], size_c = 1, published_size = 0, next_c = None\<rparr>]\<rparr>)"
proof -
  let ?b = "\<lparr>chunk_limit = 2, head = 0, current = 1,
      heap = [\<lparr>limit = 2, slots = [10, 11 :: u32], size_c = 2, published_size = 2, next_c = Some 1\<rparr>,
              \<lparr>limit = 2, slots = [12, 13], size_c = 2, published_size = 1, next_c = None\<rparr>]\<rparr>"
  have v: "current ?b < length (heap ?b)" by simp
  from ExpandAndAddSlots_frame[OF v, of 1]
  obtain b' where r: "ExpandAndAddSlots 1 ?b = Inr (length (heap ?b), b')"
    and c: "heap b' ! current ?b =
       (heap ?b ! current ?b)\<lparr>published_size := size_c (heap ?b ! current ?b),
                             next_c := Some (length (heap ?b))\<rparr>"
    by blast
  have "ExpandAndAddSlots 1 ?b = Inr (2,
     \<lparr>chunk_limit = 2, head = 0, current = 2,
      heap = [\<lparr>limit = 2, slots = [10, 11], size_c = 2, published_size = 2, next_c = Some 1\<rparr>,
              \<lparr>limit = 2, slots = [12, 13], size_c = 2, published_size = 2, next_c = Some 2\<rparr>,
              \<lparr>limit = 2, slots = [0, 0], size_c = 1, published_size = 0, next_c = None\<rparr>]\<rparr>)"
    by (simp add: ExpandAndAddSlots_def ExpandAndAddSlots_steps_def store_Chunk_def Let_def
          Chunk_new_def numeral_2_eq_2)
  then show ?thesis using r c by simp
qed

end
